theory Spec2Isabelle
  imports
    Complex_Main
    "HOL-Library.Sublist"
    "HOL-Library.Char_ord"
    "HOL-Library.List_Lexorder"
    "HOL-Library.Product_Lexorder"
    "HOL-Library.AList"
begin

section \<open>Python values, strings and errors\<close>

text \<open>
  The scraper of \<^verbatim>\<open>main.py\<close> works on Python \<^verbatim>\<open>str\<close> values. A string is modelled as
  a \<^typ>\<open>string\<close>, one \<^typ>\<open>char\<close> per code point, for the code points 0 to 255.
  The exceptions the modelled code can raise are values of \<open>error\<close>; a function that can
  raise returns \<open>error + 'a\<close>, with \<open>Inl\<close> for the exception. \<open>OtherError\<close> carries the
  name of any exception of a library that is not listed.
\<close>

datatype error =
    IndexError
  | KeyError string
  | AttributeError
  | ValueError
  | FileNotFoundError
  | EOFError
  | OtherError string

text \<open>
  The matcher is annotated to take strings, and guards against \<^verbatim>\<open>None\<close> entries as well:
  an argument is a Python value that is \<^verbatim>\<open>None\<close> or a \<^verbatim>\<open>str\<close>.
\<close>

datatype pyval = PNone | PStr string

text \<open>\<^verbatim>\<open>str(v)\<close>: the identity on a string, the text \<^verbatim>\<open>None\<close> on \<^verbatim>\<open>None\<close>.\<close>

fun py_str :: "pyval \<Rightarrow> string" where
  "py_str PNone = ''None''"
| "py_str (PStr s) = s"

text \<open>
  \<^verbatim>\<open>str.isspace\<close> on one code point below 256: the characters \<^verbatim>\<open>str.strip()\<close> removes.
\<close>

definition py_isspace :: "char \<Rightarrow> bool" where
  "py_isspace c =
     (let n = (of_char c :: nat)
      in (9 \<le> n \<and> n \<le> 13) \<or> (28 \<le> n \<and> n \<le> 32) \<or> n = 133 \<or> n = 160)"

text \<open>\<^verbatim>\<open>s.strip()\<close>: drop the leading and the trailing whitespace.\<close>

definition py_strip :: "string \<Rightarrow> string" where
  "py_strip s = rev (dropWhile py_isspace (rev (dropWhile py_isspace s)))"

text \<open>
  \<^verbatim>\<open>s.lower()\<close> on code points below 256: the ASCII capitals and the Latin-1 capitals
  (192 to 222, the multiplication sign 215 apart) move up by 32.
\<close>

definition py_lower_char :: "char \<Rightarrow> char" where
  "py_lower_char c =
     (let n = (of_char c :: nat)
      in if (65 \<le> n \<and> n \<le> 90) \<or> (192 \<le> n \<and> n \<le> 222 \<and> n \<noteq> 215)
         then char_of (n + 32) else c)"

definition py_lower :: "string \<Rightarrow> string" where
  "py_lower s = map py_lower_char s"

text \<open>\<^verbatim>\<open>s.startswith(p)\<close>.\<close>

definition startswith :: "string \<Rightarrow> string \<Rightarrow> bool" where
  "startswith s p = prefix p s"

text \<open>
  \<^verbatim>\<open>s.split(sep)\<close> for a separator of one character: every occurrence of the separator
  ends a piece, so the result has one piece more than \<open>s\<close> has separators, and is never
  empty.
\<close>

fun py_split :: "char \<Rightarrow> string \<Rightarrow> string list" where
  "py_split sep [] = [[]]"
| "py_split sep (c # cs) =
     (if c = sep then [] # py_split sep cs
      else (case py_split sep cs of
              [] \<Rightarrow> [[c]]
            | w # ws \<Rightarrow> (c # w) # ws))"

text \<open>
  \<^verbatim>\<open>s.replace(old, new)\<close>: every non-overlapping occurrence of \<open>old\<close>, found from the
  left, is replaced. \<open>replace_from\<close> scans \<open>s\<close>; its counter is the number of characters
  of an occurrence just replaced that are still to be skipped. An empty \<open>old\<close> matches
  before every character and at the end.
\<close>

fun replace_from :: "string \<Rightarrow> string \<Rightarrow> nat \<Rightarrow> string \<Rightarrow> string" where
  "replace_from old new k [] = []"
| "replace_from old new (Suc k) (c # cs) = replace_from old new k cs"
| "replace_from old new 0 (c # cs) =
     (if prefix old (c # cs) then new @ replace_from old new (length old - 1) cs
      else c # replace_from old new 0 cs)"

definition py_replace :: "string \<Rightarrow> string \<Rightarrow> string \<Rightarrow> string" where
  "py_replace old new s =
     (if old = [] then new @ concat (map (\<lambda>c. c # new) s)
      else replace_from old new 0 s)"

section \<open>The similarity ratio of the standard library\<close>

text \<open>
  \<^verbatim>\<open>difflib.SequenceMatcher(None, a, b).ratio()\<close>, as the matcher calls it: no junk
  predicate, and the automatic junk heuristic left on. The definitions follow
  \<^verbatim>\<open>difflib.py\<close> method by method.

  \<^verbatim>\<open>__chain_b\<close> builds \<^verbatim>\<open>b2j\<close>, the ascending list of the positions of every element of
  \<open>b\<close>; when \<open>b\<close> has 200 elements or more, an element with more than
  \<^verbatim>\<open>len(b) // 100 + 1\<close> positions is popular and loses its entry. \<open>chain_b b elt\<close> is
  \<^verbatim>\<open>b2j.get(elt, [])\<close>. Without a junk predicate the set \<^verbatim>\<open>bjunk\<close> is empty.
\<close>

definition chain_b :: "string \<Rightarrow> char \<Rightarrow> nat list" where
  "chain_b b elt =
     (let idxs = filter (\<lambda>j. b ! j = elt) [0..<length b];
          n = length b
      in if n \<ge> 200 \<and> length idxs > n div 100 + 1 then [] else idxs)"

text \<open>
  The inner loop of \<^verbatim>\<open>find_longest_match\<close> over the positions \<open>j\<close> of \<^verbatim>\<open>a[i]\<close> in \<open>b\<close>:
  positions below \<open>blo\<close> are skipped, the first one at or above \<open>bhi\<close> ends the loop.
  \<^verbatim>\<open>j2len.get(j-1, 0)\<close> is 0 for \<open>j = 0\<close>, as no key is negative. The state is the new
  dictionary and the best match so far, \<open>(besti, bestj, bestsize)\<close>.
\<close>

type_synonym match = "nat \<times> nat \<times> nat"

fun scan_b ::
  "nat \<Rightarrow> nat \<Rightarrow> nat \<Rightarrow> (nat \<rightharpoonup> nat) \<Rightarrow> nat list \<Rightarrow> (nat \<rightharpoonup> nat) \<times> match \<Rightarrow> (nat \<rightharpoonup> nat) \<times> match" where
  "scan_b blo bhi i j2len [] st = st"
| "scan_b blo bhi i j2len (j # js) (newj2len, besti, bestj, bestsize) =
     (if j < blo then scan_b blo bhi i j2len js (newj2len, besti, bestj, bestsize)
      else if j \<ge> bhi then (newj2len, besti, bestj, bestsize)
      else
        (let k = (case (if j = 0 then None else j2len (j - 1)) of None \<Rightarrow> 0 | Some l \<Rightarrow> l) + 1;
             newj2len = newj2len(j \<mapsto> k)
         in if k > bestsize
            then scan_b blo bhi i j2len js (newj2len, i + 1 - k, j + 1 - k, k)
            else scan_b blo bhi i j2len js (newj2len, besti, bestj, bestsize)))"

text \<open>The outer loop, \<^verbatim>\<open>for i in range(alo, ahi)\<close>, from \<open>(alo, blo, 0)\<close>.\<close>

definition longest_junk_free :: "string \<Rightarrow> string \<Rightarrow> nat \<Rightarrow> nat \<Rightarrow> nat \<Rightarrow> nat \<Rightarrow> match" where
  "longest_junk_free a b alo ahi blo bhi =
     snd (fold (\<lambda>i (j2len, best). scan_b blo bhi i j2len (chain_b b (a ! i)) (Map.empty, best))
            [alo..<ahi] (Map.empty, (alo, blo, 0)))"

text \<open>
  The two loops that extend the best match by equal elements on each end. The two further
  loops of the source extend it by elements of \<^verbatim>\<open>bjunk\<close> only, and never run.
\<close>

function extend_left :: "string \<Rightarrow> string \<Rightarrow> nat \<Rightarrow> nat \<Rightarrow> match \<Rightarrow> match" where
  "extend_left a b alo blo (besti, bestj, bestsize) =
     (if besti > alo \<and> bestj > blo \<and> a ! (besti - 1) = b ! (bestj - 1)
      then extend_left a b alo blo (besti - 1, bestj - 1, bestsize + 1)
      else (besti, bestj, bestsize))"
  by pat_completeness auto
termination
  by (relation "measure (\<lambda>(a, b, alo, blo, besti, bestj, bestsize). besti)") auto

function extend_right :: "string \<Rightarrow> string \<Rightarrow> nat \<Rightarrow> nat \<Rightarrow> match \<Rightarrow> match" where
  "extend_right a b ahi bhi (besti, bestj, bestsize) =
     (if besti + bestsize < ahi \<and> bestj + bestsize < bhi
         \<and> a ! (besti + bestsize) = b ! (bestj + bestsize)
      then extend_right a b ahi bhi (besti, bestj, bestsize + 1)
      else (besti, bestj, bestsize))"
  by pat_completeness auto
termination
  by (relation "measure (\<lambda>(a, b, ahi, bhi, besti, bestj, bestsize). ahi - (besti + bestsize))") auto

definition find_longest_match :: "string \<Rightarrow> string \<Rightarrow> nat \<Rightarrow> nat \<Rightarrow> nat \<Rightarrow> nat \<Rightarrow> match" where
  "find_longest_match a b alo ahi blo bhi =
     extend_right a b ahi bhi (extend_left a b alo blo (longest_junk_free a b alo ahi blo bhi))"

declare extend_left.simps [simp del] extend_right.simps [simp del]

text \<open>
  The match found lies inside the range of \<open>a\<close> it was looked for in: this is what makes
  the loop of \<^verbatim>\<open>get_matching_blocks\<close> terminate.
\<close>

definition a_bounded :: "nat \<Rightarrow> nat \<Rightarrow> match \<Rightarrow> bool" where
  "a_bounded alo ahi m =
     (case m of (i, j, k) \<Rightarrow> alo \<le> i \<and> (if k = 0 then i = alo else i + k \<le> ahi))"

lemma scan_b_bounded:
  assumes "\<forall>j l. j2len j = Some l \<longrightarrow> l + alo \<le> i" "i < ahi" "alo \<le> i"
    and "\<forall>j l. new j = Some l \<longrightarrow> l + alo \<le> Suc i" "a_bounded alo ahi best"
    and "scan_b blo bhi i j2len js (new, best) = (new', best')"
  shows "(\<forall>j l. new' j = Some l \<longrightarrow> l + alo \<le> Suc i) \<and> a_bounded alo ahi best'"
  using assms
proof (induction js arbitrary: new best)
  case Nil
  then show ?case by simp
next
  case (Cons j js)
  obtain bi bj bs where best: "best = (bi, bj, bs)" by (cases best)
  define k where "k = (case (if j = 0 then None else j2len (j - 1)) of None \<Rightarrow> 0 | Some l \<Rightarrow> l) + 1"
  have k: "k + alo \<le> Suc i" "0 < k"
    using Cons.prems(1,3) by (auto simp: k_def split: option.splits)
  show ?case
  proof (cases "j < blo")
    case True
    with Cons best show ?thesis by simp
  next
    case lo: False
    show ?thesis
    proof (cases "j \<ge> bhi")
      case True
      with Cons.prems lo best show ?thesis by simp
    next
      case False
      have new: "\<forall>j' l. (new(j \<mapsto> k)) j' = Some l \<longrightarrow> l + alo \<le> Suc i"
        using Cons.prems(4) k by auto
      show ?thesis
      proof (cases "k > bs")
        case True
        have "a_bounded alo ahi (i + 1 - k, j + 1 - k, k)"
          using k Cons.prems(2,3) by (auto simp: a_bounded_def)
        moreover have "scan_b blo bhi i j2len js (new(j \<mapsto> k), i + 1 - k, j + 1 - k, k) = (new', best')"
          using Cons.prems(6) lo False True best by (simp add: k_def Let_def)
        ultimately show ?thesis
          using Cons.IH [OF Cons.prems(1,2,3) new] by blast
      next
        case nb: False
        have "scan_b blo bhi i j2len js (new(j \<mapsto> k), best) = (new', best')"
          using Cons.prems(6) lo False nb best by (simp add: k_def Let_def)
        then show ?thesis
          using Cons.IH [OF Cons.prems(1,2,3) new Cons.prems(5)] by blast
      qed
    qed
  qed
qed

lemma fold_scan_bounded:
  assumes "alo \<le> ahi"
    and "fold (\<lambda>i (j2len, best). scan_b blo bhi i j2len (f i) (Map.empty, best))
            [alo..<ahi] (Map.empty, (alo, blo, 0)) = (j2len', best')"
  shows "(\<forall>j l. j2len' j = Some l \<longrightarrow> l + alo \<le> ahi) \<and> a_bounded alo (max ahi alo) best'"
  using assms
proof (induction ahi arbitrary: j2len' best')
  case 0
  then show ?case by (auto simp: a_bounded_def)
next
  case (Suc ahi)
  show ?case
  proof (cases "alo = Suc ahi")
    case True
    with Suc.prems show ?thesis by (auto simp: a_bounded_def)
  next
    case False
    then have le: "alo \<le> ahi" using Suc.prems(1) by simp
    define r where "r = fold (\<lambda>i (j2len, best). scan_b blo bhi i j2len (f i) (Map.empty, best))
            [alo..<ahi] (Map.empty, (alo, blo, 0))"
    obtain j2 b2 where "r = (j2, b2)" by (cases r)
    then have mid: "fold (\<lambda>i (j2len, best). scan_b blo bhi i j2len (f i) (Map.empty, best))
            [alo..<ahi] (Map.empty, (alo, blo, 0)) = (j2, b2)" by (simp add: r_def)
    from Suc.IH [OF le mid] have ih: "\<forall>j l. j2 j = Some l \<longrightarrow> l + alo \<le> ahi" "a_bounded alo ahi b2"
      using le by (simp_all add: max_def)
    have b2: "a_bounded alo (Suc ahi) b2" using ih(2) by (auto simp: a_bounded_def split: if_splits)
    have step: "scan_b blo bhi ahi j2 (f ahi) (Map.empty, b2) = (j2len', best')"
      using Suc.prems(2) le mid by simp
    have "(\<forall>j l. j2len' j = Some l \<longrightarrow> l + alo \<le> Suc ahi) \<and> a_bounded alo (Suc ahi) best'"
      by (rule scan_b_bounded [OF ih(1) _ le _ b2 step]) simp_all
    then show ?thesis using le by (simp add: max_def)
  qed
qed

lemma longest_junk_free_bounded: "a_bounded alo ahi (longest_junk_free a b alo ahi blo bhi)"
proof (cases "alo \<le> ahi")
  case True
  define r where "r = fold (\<lambda>i (j2len, best). scan_b blo bhi i j2len (chain_b b (a ! i)) (Map.empty, best))
            [alo..<ahi] (Map.empty, (alo, blo, 0))"
  obtain j2 b2 where "r = (j2, b2)" by (cases r)
  then have mid: "fold (\<lambda>i (j2len, best). scan_b blo bhi i j2len (chain_b b (a ! i)) (Map.empty, best))
            [alo..<ahi] (Map.empty, (alo, blo, 0)) = (j2, b2)" by (simp add: r_def)
  from fold_scan_bounded [OF True mid] True show ?thesis
    by (simp add: longest_junk_free_def mid max_def)
next
  case False
  then show ?thesis by (simp add: longest_junk_free_def a_bounded_def)
qed

lemma extend_left_bounded:
  "a_bounded alo ahi m \<Longrightarrow> a_bounded alo ahi (extend_left a b alo blo m)"
proof (induction a b alo blo m rule: extend_left.induct)
  case (1 a b alo blo besti bestj bestsize)
  show ?case
  proof (cases "besti > alo \<and> bestj > blo \<and> a ! (besti - 1) = b ! (bestj - 1)")
    case True
    have "a_bounded alo ahi (besti - 1, bestj - 1, bestsize + 1)"
      using "1.prems" True by (auto simp: a_bounded_def split: if_splits)
    from "1.IH" [OF True this] True show ?thesis
      by (subst extend_left.simps) simp
  next
    case False
    with "1.prems" show ?thesis by (subst extend_left.simps) auto
  qed
qed

lemma extend_right_bounded:
  "a_bounded alo ahi m \<Longrightarrow> a_bounded alo ahi (extend_right a b ahi bhi m)"
proof (induction a b ahi bhi m rule: extend_right.induct)
  case (1 a b ahi bhi besti bestj bestsize)
  show ?case
  proof (cases "besti + bestsize < ahi \<and> bestj + bestsize < bhi
         \<and> a ! (besti + bestsize) = b ! (bestj + bestsize)")
    case True
    have "a_bounded alo ahi (besti, bestj, bestsize + 1)"
      using "1.prems" True by (auto simp: a_bounded_def split: if_splits)
    from "1.IH" [OF True this] True show ?thesis
      by (subst extend_right.simps) simp
  next
    case False
    with "1.prems" show ?thesis by (subst extend_right.simps) auto
  qed
qed

lemma find_longest_match_bounded:
  "a_bounded alo ahi (find_longest_match a b alo ahi blo bhi)"
  unfolding find_longest_match_def
  by (intro extend_right_bounded extend_left_bounded longest_junk_free_bounded)

lemma find_longest_match_inside:
  assumes "(i, j, k) = find_longest_match a b alo ahi blo bhi" "k \<noteq> 0"
  shows "alo \<le> i \<and> i + k \<le> ahi"
proof -
  have "a_bounded alo ahi (i, j, k)"
    unfolding assms(1) by (rule find_longest_match_bounded)
  with assms(2) show ?thesis by (simp add: a_bounded_def)
qed

text \<open>
  The loop of \<^verbatim>\<open>get_matching_blocks\<close>. The source keeps the ranges still to be looked at
  in a list used as a stack (\<^verbatim>\<open>queue.pop()\<close> takes the last one pushed); here the top of
  the stack is the head of the list.
\<close>

function matching_loop ::
  "string \<Rightarrow> string \<Rightarrow> (nat \<times> nat \<times> nat \<times> nat) list \<Rightarrow> match list \<Rightarrow> match list" where
  "matching_loop a b [] matching_blocks = matching_blocks"
| "matching_loop a b ((alo, ahi, blo, bhi) # queue) matching_blocks =
     (case find_longest_match a b alo ahi blo bhi of
        (i, j, k) \<Rightarrow>
          if k \<noteq> 0 then
            matching_loop a b
              ((if i + k < ahi \<and> j + k < bhi then [(i + k, ahi, j + k, bhi)] else []) @
               (if alo < i \<and> blo < j then [(alo, i, blo, j)] else []) @ queue)
              (matching_blocks @ [(i, j, k)])
          else matching_loop a b queue matching_blocks)"
  by pat_completeness auto
termination
proof (relation "measure (\<lambda>(a, b, queue, mb).
          sum_list (map (\<lambda>(alo, ahi, blo, bhi). 2 * (ahi - alo) + 1) queue))", goal_cases)
  case 1
  show ?case by simp
next
  case 2
  then show ?case by (auto dest!: find_longest_match_inside)
next
  case 3
  show ?case by simp
qed

declare matching_loop.simps [simp del]

text \<open>
  \<^verbatim>\<open>get_matching_blocks\<close>: the blocks found are sorted, adjacent blocks are merged, and
  the block \<open>(la, lb, 0)\<close> closes the list.
\<close>

definition collapse :: "match \<Rightarrow> match list \<times> match \<Rightarrow> match list \<times> match" where
  "collapse m st =
     (case (m, st) of
        ((i2, j2, k2), (non_adjacent, (i1, j1, k1))) \<Rightarrow>
          if i1 + k1 = i2 \<and> j1 + k1 = j2 then (non_adjacent, (i1, j1, k1 + k2))
          else ((if k1 \<noteq> 0 then non_adjacent @ [(i1, j1, k1)] else non_adjacent), (i2, j2, k2)))"

definition get_matching_blocks :: "string \<Rightarrow> string \<Rightarrow> match list" where
  "get_matching_blocks a b =
     (let la = length a; lb = length b;
          matching_blocks = sort (matching_loop a b [(0, la, 0, lb)] [])
      in case fold collapse matching_blocks ([], (0, 0, 0)) of
           (non_adjacent, (i1, j1, k1)) \<Rightarrow>
             (if k1 \<noteq> 0 then non_adjacent @ [(i1, j1, k1)] else non_adjacent) @ [(la, lb, 0)])"

text \<open>
  \<^verbatim>\<open>_calculate_ratio\<close> and \<^verbatim>\<open>ratio\<close>. The source divides floating-point numbers; the
  quotient is kept exact here. The matcher only compares scores, and what is proved of it
  below holds for every score function.
\<close>

definition calculate_ratio :: "nat \<Rightarrow> nat \<Rightarrow> rat" where
  "calculate_ratio matches len = (if len \<noteq> 0 then 2 * of_nat matches / of_nat len else 1)"

definition SequenceMatcher_ratio :: "string \<Rightarrow> string \<Rightarrow> rat" where
  "SequenceMatcher_ratio a b =
     (let matches = sum_list (map (\<lambda>(i, j, k). k) (get_matching_blocks a b))
      in calculate_ratio matches (length a + length b))"

section \<open>The fuzzy matcher\<close>

text \<open>
  \<^verbatim>\<open>DDOWikiScraper.get_closest_matching_quest\<close>. The similarity of two strings is
  \<^verbatim>\<open>difflib.SequenceMatcher(None, a, b).ratio()\<close>, a function of the standard library; the
  matcher takes it as its first argument \<open>ratio\<close>, with values in any linear order, and
  only compares its results.

  The loop first converts every candidate with \<^verbatim>\<open>str\<close>, and only then tests it against
  \<^verbatim>\<open>None\<close>; \<open>candidate_score\<close> is the body of the loop on one converted candidate.
\<close>

definition candidate_score :: "(string \<Rightarrow> string \<Rightarrow> 'r) \<Rightarrow> string \<Rightarrow> pyval \<Rightarrow> 'r" where
  "candidate_score ratio quest_name candidate_name =
     (let candidate_name = (if candidate_name = PNone then PStr [] else candidate_name);
          candidate_name = py_str candidate_name
      in ratio (py_strip (py_lower quest_name)) (py_strip (py_lower candidate_name)))"

definition candidate_scores :: "(string \<Rightarrow> string \<Rightarrow> 'r) \<Rightarrow> pyval \<Rightarrow> pyval list \<Rightarrow> 'r list" where
  "candidate_scores ratio quest_name candidate_names =
     (let quest_name = py_str quest_name;
          candidate_names = map (\<lambda>c. PStr (py_str c)) candidate_names
      in map (candidate_score ratio quest_name) candidate_names)"

text \<open>
  \<^verbatim>\<open>sorted(..., key=lambda x: x[0])\<close> is a stable sort on the score, as \<^const>\<open>sort_key\<close> is;
  \<^verbatim>\<open>[...][-1]\<close> raises \<^verbatim>\<open>IndexError\<close> on the empty list.
\<close>

definition get_closest_matching_quest ::
  "(string \<Rightarrow> string \<Rightarrow> 'r::linorder) \<Rightarrow> pyval \<Rightarrow> pyval list \<Rightarrow> error + string" where
  "get_closest_matching_quest ratio quest_name candidate_names =
     (let candidate_scores = candidate_scores ratio quest_name candidate_names;
          candidate_names = map py_str candidate_names;
          candidates = sort_key fst (zip candidate_scores candidate_names);
          ys = map snd candidates
      in if ys = [] then Inl IndexError else Inr (last ys))"

section \<open>The record extractor\<close>

text \<open>
  A Python \<^verbatim>\<open>dict\<close> with string keys is an association list in the order of insertion:
  \<^const>\<open>AList.update\<close> replaces the value of a key that is present, in place, and appends
  a new key at the end, as \<^verbatim>\<open>d[k] = v\<close> does; \<^const>\<open>map_of\<close> reads a key.
\<close>

type_synonym dict = "(string \<times> string) list"

text \<open>
  \<^verbatim>\<open>DDOWikiScraper.get_monster_info\<close>, after the page has been read: \<open>text\<close> is the text
  of the element \<^verbatim>\<open>mw-content-text\<close> and \<open>keywords\<close> is \<^verbatim>\<open>configs["columns"]\<close>.

  First the lines are cleaned: split at line feeds, stripped, the empty ones dropped, and
  only the lines that start with one of the keywords kept.
\<close>

definition clean_lines :: "string list \<Rightarrow> string \<Rightarrow> string list" where
  "clean_lines keywords text =
     (let lines = py_split (CHR 0x0A) text;
          lines = map py_strip lines;
          lines = filter (\<lambda>line. line \<noteq> []) lines
      in filter (\<lambda>line. list_ex (startswith line) keywords) lines)"

text \<open>
  The inner \<^verbatim>\<open>for ... else\<close>: the first line that starts with the keyword, and the empty
  string when the loop ends without a \<^verbatim>\<open>break\<close>.
\<close>

fun first_line :: "string \<Rightarrow> string list \<Rightarrow> string" where
  "first_line keyword [] = []"
| "first_line keyword (line # lines) =
     (if startswith line keyword then line else first_line keyword lines)"

definition raw_info :: "string list \<Rightarrow> string list \<Rightarrow> dict" where
  "raw_info keywords lines =
     fold (\<lambda>keyword monster_info. AList.update keyword (first_line keyword lines) monster_info)
       keywords []"

text \<open>
  The cleaning of one value, and the loop that cleans every value. The loop runs over the
  items of the dictionary it writes to; it writes the key it is visiting only, so the value
  it reads at a key is the one stored before the loop.
\<close>

definition clean_value :: "string \<Rightarrow> string \<Rightarrow> string" where
  "clean_value key value =
     (let value = py_replace key [] value;
          value = py_replace '':'' [] value;
          value = py_replace ''(List)'' [] value
      in py_strip value)"

definition clean_info :: "dict \<Rightarrow> dict" where
  "clean_info monster_info =
     fold (\<lambda>(key, value) info. AList.update key (clean_value key value) info)
       monster_info monster_info"

definition monster_info_of_text :: "string list \<Rightarrow> string \<Rightarrow> dict" where
  "monster_info_of_text keywords text = clean_info (raw_info keywords (clean_lines keywords text))"

subsection \<open>The cleaning in the words of the specification\<close>

text \<open>
  The specification words the cleaning of a value as four removals. They are written here
  on their own, not in terms of \<open>py_replace\<close>, to be compared with \<open>clean_value\<close>:
  \<open>remove_first\<close> takes out the first occurrence of a text, \<open>remove_every\<close> every
  occurrence, found from the left and not overlapping.
\<close>

fun remove_first :: "string \<Rightarrow> string \<Rightarrow> string" where
  "remove_first old [] = []"
| "remove_first old (c # cs) =
     (if prefix old (c # cs) then drop (length old) (c # cs) else c # remove_first old cs)"

function remove_every :: "string \<Rightarrow> string \<Rightarrow> string" where
  "remove_every old s =
     (if old = [] \<or> s = [] then s
      else if prefix old s then remove_every old (drop (length old) s)
      else hd s # remove_every old (tl s))"
  by pat_completeness auto
termination
  by (relation "measure (\<lambda>(old, s). length s)") auto

declare remove_every.simps [simp del]

definition clean_value_spec :: "string \<Rightarrow> string \<Rightarrow> string" where
  "clean_value_spec key line =
     py_strip (remove_every ''(List)'' (filter (\<lambda>c. c \<noteq> CHR '':'') (remove_first key line)))"

section \<open>The alignment decomposers\<close>

text \<open>
  \<^verbatim>\<open>DDOWikiScraper.get_lawfulness\<close> and \<^verbatim>\<open>get_goodness\<close>: a loop over the alignments that
  appends one string to the result in each round. The two bodies differ in the last branch
  only.
\<close>

definition lawfulness_step :: "string \<Rightarrow> string list \<Rightarrow> string list" where
  "lawfulness_step alignment lawfulness =
     (if alignment \<noteq> [] then
        (let alignment = py_strip alignment;
             alignment = (if py_lower alignment = ''true neutral''
                          then ''Neutral Neutral'' else alignment);
             split = py_split CHR '' '' alignment
         in if length split < 1 then lawfulness @ [[]]
            else if length split = 1 then lawfulness @ [split ! 0]
            else lawfulness @ [split ! 0])
      else lawfulness @ [[]])"

definition get_lawfulness :: "string list \<Rightarrow> string list" where
  "get_lawfulness alignments = fold lawfulness_step alignments []"

definition goodness_step :: "string \<Rightarrow> string list \<Rightarrow> string list" where
  "goodness_step alignment goodness =
     (if alignment \<noteq> [] then
        (let alignment = py_strip alignment;
             alignment = (if py_lower alignment = ''true neutral''
                          then ''Neutral Neutral'' else alignment);
             split = py_split CHR '' '' alignment
         in if length split < 1 then goodness @ [[]]
            else if length split = 1 then goodness @ [split ! 0]
            else goodness @ [split ! 1])
      else goodness @ [[]])"

definition get_goodness :: "string list \<Rightarrow> string list" where
  "get_goodness alignments = fold goodness_step alignments []"

section \<open>The table of monsters\<close>

text \<open>
  A \<^verbatim>\<open>pandas.DataFrame\<close> built from a list of dictionaries: the columns are the keys in
  the order in which they first appear, and every dictionary is a row. A cell is the value
  of the row at the column; a row that lacks the key has a missing cell (\<^verbatim>\<open>NaN\<close>).
\<close>

record dataframe =
  columns :: "string list"
  rows :: "dict list"

definition DataFrame :: "dict list \<Rightarrow> dataframe" where
  "DataFrame data =
     \<lparr>columns = fold (\<lambda>key cols. if key \<in> set cols then cols else cols @ [key])
                  (concat (map (map fst) data)) [],
      rows = data\<rparr>"

text \<open>
  A frame is uniform when every row has a cell in every column and no other key: no cell is
  missing.
\<close>

definition uniform :: "dataframe \<Rightarrow> bool" where
  "uniform df = (\<forall>row\<in>set (rows df). fst ` set row = set (columns df))"

text \<open>\<^verbatim>\<open>df[c]\<close>, the cells of a column, for a column that exists.\<close>

definition column :: "dataframe \<Rightarrow> string \<Rightarrow> string option list" where
  "column df c = map (\<lambda>row. map_of row c) (rows df)"

text \<open>
  \<^verbatim>\<open>df[c] = values\<close>: the column is replaced or added at the end; the values must be as
  many as the rows.
\<close>

definition set_column :: "dataframe \<Rightarrow> string \<Rightarrow> string list \<Rightarrow> error + dataframe" where
  "set_column df c vals =
     (if length vals \<noteq> length (rows df) then Inl ValueError
      else Inr \<lparr>columns = (if c \<in> set (columns df) then columns df else columns df @ [c]),
                rows = map (\<lambda>(row, v). AList.update c v row) (zip (rows df) vals)\<rparr>)"

text \<open>\<^verbatim>\<open>df.drop(c, axis=1)\<close>.\<close>

definition drop_column :: "dataframe \<Rightarrow> string \<Rightarrow> error + dataframe" where
  "drop_column df c =
     (if c \<notin> set (columns df) then Inl (KeyError c)
      else Inr \<lparr>columns = removeAll c (columns df), rows = map (AList.delete c) (rows df)\<rparr>)"

text \<open>
  \<^verbatim>\<open>df.sort_values(cols)\<close>: \<^verbatim>\<open>KeyError\<close> on the first column that does not exist;
  otherwise the rows in ascending order of the tuple of their cells at \<open>cols\<close>, strings
  compared by code point, missing cells last, and rows of equal key in their former order.
  \<^verbatim>\<open>reset_index(drop=True)\<close> renumbers the rows and changes nothing here.
\<close>

definition sort_cell :: "string option \<Rightarrow> nat \<times> string" where
  "sort_cell cell = (case cell of Some s \<Rightarrow> (0, s) | None \<Rightarrow> (1, []))"

definition sort_values :: "string list \<Rightarrow> dataframe \<Rightarrow> error + dataframe" where
  "sort_values cols df =
     (case find (\<lambda>c. c \<notin> set (columns df)) cols of
        Some c \<Rightarrow> Inl (KeyError c)
      | None \<Rightarrow>
          Inr (df\<lparr>rows := sort_key (\<lambda>row. map (\<lambda>c. sort_cell (map_of row c)) cols) (rows df)\<rparr>))"

text \<open>
  The decomposers applied to a column: they call \<^verbatim>\<open>strip\<close> on every cell that is true,
  and a missing cell is a true \<^verbatim>\<open>float\<close>, which has no such method.
\<close>

definition on_column :: "(string list \<Rightarrow> string list) \<Rightarrow> string option list \<Rightarrow> error + string list" where
  "on_column f cells = (case those cells of None \<Rightarrow> Inl AttributeError | Some xs \<Rightarrow> Inr (f xs))"

text \<open>
  The part of \<^verbatim>\<open>DDOWikiScraper.get_monsters_in_quest\<close> after \<^verbatim>\<open>monster_info\<close> is
  collected: the frame is built, the alignment column is replaced by its two parts when it
  exists, and the rows are sorted.
\<close>

definition clean_up :: "dict list \<Rightarrow> error + dataframe" where
  "clean_up monster_info =
     (let df = DataFrame monster_info in
      case (if ''Alignment'' \<in> set (columns df) then
              (case on_column get_lawfulness (column df ''Alignment'') of
                 Inl e \<Rightarrow> Inl e
               | Inr lawfulness \<Rightarrow>
                   (case set_column df ''Lawfulness'' lawfulness of
                      Inl e \<Rightarrow> Inl e
                    | Inr df \<Rightarrow>
                        (case on_column get_goodness (column df ''Alignment'') of
                           Inl e \<Rightarrow> Inl e
                         | Inr goodness \<Rightarrow>
                             (case set_column df ''Goodness'' goodness of
                                Inl e \<Rightarrow> Inl e
                              | Inr df \<Rightarrow> drop_column df ''Alignment''))))
            else Inr df) of
        Inl e \<Rightarrow> Inl e
      | Inr df \<Rightarrow> sort_values [''Lawfulness'', ''Goodness'', ''Race'', ''Name''] df)"

text \<open>
  What the scraper reads from the wiki is given by an environment: the result of
  \<^verbatim>\<open>get_quest_urls()\<close>, the result of \<^verbatim>\<open>get_monster_urls(url)\<close> for every address, and
  the text of the element \<^verbatim>\<open>mw-content-text\<close> of the page at an address. Each of them can
  raise.
\<close>

record env =
  get_quest_urls :: "error + dict"
  get_monster_urls :: "string \<Rightarrow> error + dict"
  content_text :: "string \<Rightarrow> error + string"

definition get_monster_info :: "env \<Rightarrow> string list \<Rightarrow> string \<Rightarrow> error + dict" where
  "get_monster_info e keywords url =
     (case content_text e url of
        Inl err \<Rightarrow> Inl err
      | Inr text \<Rightarrow> Inr (monster_info_of_text keywords text))"

text \<open>
  The list comprehension over \<^verbatim>\<open>monster_urls.items()\<close>: one dictionary for each monster,
  \<^verbatim>\<open>{"Name": key}\<close> updated with the monster's record; the first page that cannot be read
  ends it.
\<close>

fun monster_info_list :: "env \<Rightarrow> string list \<Rightarrow> dict \<Rightarrow> error + dict list" where
  "monster_info_list e keywords [] = Inr []"
| "monster_info_list e keywords ((key, value) # items) =
     (case get_monster_info e keywords value of
        Inl err \<Rightarrow> Inl err
      | Inr info \<Rightarrow>
          (case monster_info_list e keywords items of
             Inl err \<Rightarrow> Inl err
           | Inr infos \<Rightarrow>
               Inr (fold (\<lambda>(k, v) d. AList.update k v d) info [(''Name'', key)] # infos)))"

definition get_monsters_in_quest ::
  "(string \<Rightarrow> string \<Rightarrow> 'r::linorder) \<Rightarrow> env \<Rightarrow> string list \<Rightarrow> string \<Rightarrow> error + dataframe" where
  "get_monsters_in_quest ratio e keywords quest_name =
     (case get_quest_urls e of
        Inl err \<Rightarrow> Inl err
      | Inr quest_urls \<Rightarrow>
          (case get_closest_matching_quest ratio (PStr quest_name)
                  (map (\<lambda>(k, v). PStr k) quest_urls) of
             Inl err \<Rightarrow> Inl err
           | Inr closest_matching_quest \<Rightarrow>
               (case map_of quest_urls closest_matching_quest of
                  None \<Rightarrow> Inl (KeyError closest_matching_quest)
                | Some url \<Rightarrow>
                    (case get_monster_urls e url of
                       Inl err \<Rightarrow> Inl err
                     | Inr monster_urls \<Rightarrow>
                         (case monster_info_list e keywords monster_urls of
                            Inl err \<Rightarrow> Inl err
                          | Inr monster_info \<Rightarrow> clean_up monster_info)))))"

section \<open>The main loop\<close>

text \<open>
  \<^verbatim>\<open>main_loop\<close> reads a line, leaves on a quit word, loads the configuration, resolves the
  query and prints the table, again and again. The lines the user types are a list; reading
  past its end is the end of input, where \<^verbatim>\<open>input\<close> raises \<^verbatim>\<open>EOFError\<close>. The loading of
  the configuration file is \<open>load\<close> and the resolution of a query is \<open>resolve\<close>. The loop
  has no handler except the one for \<^verbatim>\<open>FileNotFoundError\<close> around the loading. The result
  is the list of the tables printed and the way the loop ended.
\<close>

datatype ending = Quit | ConfigMissing | Raised error

fun main_loop ::
  "(error + 'c) \<Rightarrow> ('c \<Rightarrow> string \<Rightarrow> error + 'd) \<Rightarrow> string list \<Rightarrow> 'd list \<times> ending" where
  "main_loop load resolve [] = ([], Raised EOFError)"
| "main_loop load resolve (line # inputs) =
     (let user_input = py_lower (py_strip line) in
      if user_input \<in> set [''q'', ''quit'', ''exit''] then ([], Quit)
      else
        (case load of
           Inl err \<Rightarrow> (if err = FileNotFoundError then ([], ConfigMissing) else ([], Raised err))
         | Inr configs \<Rightarrow>
             (case resolve configs user_input of
                Inl err \<Rightarrow> ([], Raised err)
              | Inr df \<Rightarrow>
                  (case main_loop load resolve inputs of
                     (printed, how) \<Rightarrow> (df # printed, how)))))"

section \<open>Verified properties\<close>

subsection \<open>The fuzzy matcher\<close>

lemma last_sort_key_Max:
  fixes f :: "'a \<Rightarrow> 'k::linorder"
  assumes "xs \<noteq> []"
  shows "f (last (sort_key f xs)) = Max (f ` set xs)"
proof -
  let ?S = "sort_key f xs"
  have ne: "?S \<noteq> []" using assms by (metis length_sort length_0_conv)
  have srt: "sorted (map f ?S)" by simp
  have le: "f x \<le> f (last ?S)" if "x \<in> set ?S" for x
  proof -
    from that obtain i where i: "i < length ?S" "?S ! i = x" by (metis in_set_conv_nth)
    have "map f ?S ! i \<le> map f ?S ! (length ?S - 1)"
      using srt i(1) by (intro sorted_nth_mono) auto
    then show ?thesis using i ne by (simp add: last_conv_nth del: length_sort)
  qed
  have "f (last ?S) \<in> f ` set xs" using ne by (metis imageI last_in_set set_sort)
  moreover have "\<forall>y\<in>f ` set xs. y \<le> f (last ?S)" using le by auto
  ultimately show ?thesis by (intro Max_eqI [symmetric]) auto
qed

lemma last_filter_keep:
  "xs \<noteq> [] \<Longrightarrow> P (last xs) \<Longrightarrow> last (filter P xs) = last xs"
  by (induction xs) (auto simp: filter_empty_conv)

lemma last_sort_key_stable:
  fixes f :: "'a \<Rightarrow> 'k::linorder"
  assumes "xs \<noteq> []"
  shows "last (sort_key f xs) = last (filter (\<lambda>x. f x = Max (f ` set xs)) xs)"
proof -
  let ?S = "sort_key f xs" and ?M = "Max (f ` set xs)"
  have ne: "?S \<noteq> []" using assms by (metis length_sort length_0_conv)
  have "f (last ?S) = ?M" by (rule last_sort_key_Max [OF assms])
  then have "last (filter (\<lambda>x. f x = ?M) ?S) = last ?S"
    using ne by (simp add: last_filter_keep)
  moreover have "filter (\<lambda>x. f x = ?M) ?S = filter (\<lambda>x. f x = ?M) xs"
    by (rule sort_key_stable)
  ultimately show ?thesis by simp
qed

lemma closest_tie_break:
  assumes "candidate_names \<noteq> []"
  shows "get_closest_matching_quest ratio quest_name candidate_names =
     Inr (last (filter (\<lambda>c. candidate_score ratio (py_str quest_name) (PStr c) =
                         Max (set (candidate_scores ratio quest_name candidate_names)))
               (map py_str candidate_names)))"
proof -
  define sc where "sc = (\<lambda>c. candidate_score ratio (py_str quest_name) (PStr c))"
  define ns where "ns = map py_str candidate_names"
  define zs where "zs = map (\<lambda>c. (sc c, c)) ns"
  have ns: "ns \<noteq> []" using assms by (simp add: ns_def)
  have scores: "candidate_scores ratio quest_name candidate_names = map sc ns"
    by (simp add: candidate_scores_def sc_def ns_def comp_def)
  have zip: "zip (map sc ns) ns = zs"
    by (simp add: zs_def zip_map1 zip_same_conv_map)
  have zs: "zs \<noteq> []" using ns by (simp add: zs_def)
  have img: "fst ` set zs = set (map sc ns)" by (auto simp: zs_def image_iff)
  have "snd (last (sort_key fst zs)) = snd (last (filter (\<lambda>z. fst z = Max (fst ` set zs)) zs))"
    by (simp add: last_sort_key_stable [OF zs])
  also have "filter (\<lambda>z. fst z = Max (fst ` set zs)) zs
           = map (\<lambda>c. (sc c, c)) (filter (\<lambda>c. sc c = Max (set (map sc ns))) ns)"
    unfolding img by (simp add: zs_def filter_map comp_def)
  also have "snd (last \<dots>) = last (filter (\<lambda>c. sc c = Max (set (map sc ns))) ns)"
  proof -
    have "filter (\<lambda>c. sc c = Max (set (map sc ns))) ns \<noteq> []"
    proof -
      have "Max (set (map sc ns)) \<in> set (map sc ns)" using ns by (intro Max_in) auto
      then obtain c where "c \<in> set ns" "sc c = Max (set (map sc ns))" by auto
      then show ?thesis by (auto simp: filter_empty_conv)
    qed
    then show ?thesis by (simp add: last_map)
  qed
  finally have key: "snd (last (sort_key fst zs))
      = last (filter (\<lambda>c. sc c = Max (set (map sc ns))) ns)" .
  have sne: "sort_key fst zs \<noteq> []" using zs by (metis length_sort length_0_conv)
  have "get_closest_matching_quest ratio quest_name candidate_names
      = Inr (snd (last (sort_key fst zs)))"
    using sne
    by (simp add: get_closest_matching_quest_def Let_def scores zip ns_def [symmetric] last_map)
  then show ?thesis by (simp add: key scores sc_def ns_def)
qed

text \<open>
  Claim C1. Whatever the similarity function returns, and for every query: on a non-empty
  list of candidate strings the matcher returns a string, that string is one of the
  candidates as supplied (not its normalised form), and it is the last candidate, in the
  order of the input, among those whose score is the maximum of all scores. On the
  one-element list \<open>[x]\<close> the matcher returns \<open>x\<close>.
\<close>

theorem closest_match_is_last_best_candidate:
  fixes ratio :: "string \<Rightarrow> string \<Rightarrow> 'r::linorder"
  assumes "names \<noteq> []"
  shows "(\<exists>r. get_closest_matching_quest ratio quest_name (map PStr names) = Inr r
            \<and> r \<in> set names
            \<and> r = last (filter (\<lambda>c. candidate_score ratio (py_str quest_name) (PStr c) =
                        Max (set (candidate_scores ratio quest_name (map PStr names)))) names))
       \<and> get_closest_matching_quest ratio (PStr x) [PStr x] = Inr x"
proof -
  let ?best = "\<lambda>c. candidate_score ratio (py_str quest_name) (PStr c) =
                 Max (set (candidate_scores ratio quest_name (map PStr names)))"
  have ids: "map (py_str \<circ> PStr) names = names" by (induction names) simp_all
  have res: "get_closest_matching_quest ratio quest_name (map PStr names)
      = Inr (last (filter ?best names))"
    using closest_tie_break [of "map PStr names" ratio quest_name] assms by (simp add: ids)
  have "filter ?best names \<noteq> []"
  proof -
    have sc: "candidate_scores ratio quest_name (map PStr names)
        = map (\<lambda>c. candidate_score ratio (py_str quest_name) (PStr c)) names"
      by (simp add: candidate_scores_def comp_def)
    have "Max (set (candidate_scores ratio quest_name (map PStr names)))
        \<in> set (candidate_scores ratio quest_name (map PStr names))"
      using assms by (intro Max_in) (auto simp: sc)
    then obtain c where "c \<in> set names" "?best c" unfolding sc by auto
    then show ?thesis by (auto simp: filter_empty_conv)
  qed
  then have "last (filter ?best names) \<in> set (filter ?best names)" by (rule last_in_set)
  then have mem: "last (filter ?best names) \<in> set names" by simp
  have one: "get_closest_matching_quest ratio (PStr x) [PStr x] = Inr x"
    by (simp add: get_closest_matching_quest_def candidate_scores_def)
  from res mem one show ?thesis by simp
qed

theorem closest_match_is_last_best_candidate_witness:
  "[''Shroud'', ''schism'', ''Schism '', ''Chronoscope''] \<noteq> []
   \<and> get_closest_matching_quest SequenceMatcher_ratio (PStr ''schism'')
        (map PStr [''Shroud'', ''schism'', ''Schism '', ''Chronoscope'']) = Inr ''Schism ''
   \<and> get_closest_matching_quest SequenceMatcher_ratio (PStr ''Schism'') [PStr ''Schism'']
        = Inr ''Schism''"
proof -
  have ne: "[''Shroud'', ''schism'', ''Schism '', ''Chronoscope''] \<noteq> []" by simp
  have best: "last (filter (\<lambda>c. candidate_score SequenceMatcher_ratio (py_str (PStr ''schism'')) (PStr c) =
        Max (set (candidate_scores SequenceMatcher_ratio (PStr ''schism'')
                   (map PStr [''Shroud'', ''schism'', ''Schism '', ''Chronoscope'']))))
      [''Shroud'', ''schism'', ''Schism '', ''Chronoscope'']) = ''Schism ''"
    by code_simp
  from closest_match_is_last_best_candidate [OF ne, of SequenceMatcher_ratio "PStr ''schism''" "''Schism''"]
  show ?thesis unfolding best by auto
qed

text \<open>
  Claim C10. Whatever the similarity function and the query, the matcher applied to the
  empty list of candidates raises \<^verbatim>\<open>IndexError\<close>: it returns no string.
\<close>

theorem closest_match_no_candidates_raises:
  fixes ratio :: "string \<Rightarrow> string \<Rightarrow> 'r::linorder"
  shows "get_closest_matching_quest ratio quest_name [] = Inl IndexError"
  by (simp add: get_closest_matching_quest_def candidate_scores_def)

subsection \<open>The alignment decomposers\<close>

lemma py_split_nonempty: "py_split sep s \<noteq> []"
  by (induction s) (auto split: list.splits)

lemma py_split_single: "py_split sep s = [t] \<Longrightarrow> sep \<notin> set s \<and> t = s"
proof (induction s arbitrary: t)
  case Nil
  then show ?case by simp
next
  case (Cons c cs)
  then show ?case
    using py_split_nonempty [of sep cs]
    by (auto split: if_splits list.splits)
qed

lemma py_lower_char_space: "py_lower_char c = CHR '' '' \<Longrightarrow> c = CHR '' ''"
proof -
  assume a: "py_lower_char c = CHR '' ''"
  show ?thesis
  proof (cases "(65 \<le> (of_char c :: nat) \<and> (of_char c :: nat) \<le> 90) \<or> (192 \<le> (of_char c :: nat) \<and> (of_char c :: nat) \<le> 222 \<and> (of_char c :: nat) \<noteq> 215)")
    case True
    then have "char_of ((of_char c :: nat) + 32) = CHR '' ''"
      using a by (simp add: py_lower_char_def Let_def)
    then have "(of_char (char_of ((of_char c :: nat) + 32)) :: nat) = of_char CHR '' ''" by simp
    then have m: "((of_char c :: nat) + 32) mod 256 = 32" by (simp add: of_char_of)
    have "(of_char c :: nat) + 32 < 256" using True by linarith
    then have "((of_char c :: nat) + 32) mod 256 = of_char c + 32" by (rule mod_less)
    with m have "(of_char c :: nat) = 0" by linarith
    with True have False by linarith
    then show ?thesis ..
  next
    case False
    then have "py_lower_char c = c" unfolding py_lower_char_def Let_def by (rule if_not_P)
    with a show ?thesis by simp
  qed
qed

lemma lower_true_neutral_has_space:
  assumes "py_lower s = ''true neutral''"
  shows "CHR '' '' \<in> set s"
proof -
  have "CHR '' '' \<in> set (py_lower s)" by (simp add: assms)
  then obtain c where "c \<in> set s" "py_lower_char c = CHR '' ''"
    by (auto simp: py_lower_def)
  then show ?thesis using py_lower_char_space by auto
qed

lemma lawfulness_step_append: "lawfulness_step a acc = acc @ lawfulness_step a []"
  by (simp add: lawfulness_step_def Let_def)

lemma goodness_step_append: "goodness_step a acc = acc @ goodness_step a []"
  by (simp add: goodness_step_def Let_def)

lemma fold_lawfulness: "fold lawfulness_step xs acc = acc @ concat (map (\<lambda>a. lawfulness_step a []) xs)"
proof (induction xs arbitrary: acc)
  case Nil
  then show ?case by simp
next
  case (Cons a xs)
  show ?case by (simp add: Cons.IH) (subst lawfulness_step_append, simp)
qed

lemma fold_goodness: "fold goodness_step xs acc = acc @ concat (map (\<lambda>a. goodness_step a []) xs)"
proof (induction xs arbitrary: acc)
  case Nil
  then show ?case by simp
next
  case (Cons a xs)
  show ?case by (simp add: Cons.IH) (subst goodness_step_append, simp)
qed

lemma lawfulness_step_one: "\<exists>l. lawfulness_step a [] = [l]"
  by (simp add: lawfulness_step_def Let_def)

lemma goodness_step_one: "\<exists>l. goodness_step a [] = [l]"
  by (simp add: goodness_step_def Let_def)

lemma get_lawfulness_map: "get_lawfulness xs = map (\<lambda>a. hd (lawfulness_step a [])) xs"
proof -
  have "concat (map (\<lambda>a. lawfulness_step a []) xs) = map (\<lambda>a. hd (lawfulness_step a [])) xs"
  proof (induction xs)
    case Nil
    then show ?case by simp
  next
    case (Cons a xs)
    obtain l where "lawfulness_step a [] = [l]" using lawfulness_step_one by blast
    with Cons show ?case by simp
  qed
  then show ?thesis by (simp add: get_lawfulness_def fold_lawfulness)
qed

lemma get_goodness_map: "get_goodness xs = map (\<lambda>a. hd (goodness_step a [])) xs"
proof -
  have "concat (map (\<lambda>a. goodness_step a []) xs) = map (\<lambda>a. hd (goodness_step a [])) xs"
  proof (induction xs)
    case Nil
    then show ?case by simp
  next
    case (Cons a xs)
    obtain l where "goodness_step a [] = [l]" using goodness_step_one by blast
    with Cons show ?case by simp
  qed
  then show ?thesis by (simp add: get_goodness_def fold_goodness)
qed

lemma lawfulness_of_empty: "hd (lawfulness_step [] []) = []" "hd (goodness_step [] []) = []"
  by (simp_all add: lawfulness_step_def goodness_step_def)

lemma py_strip_Nil: "py_strip [] = []"
  by (simp add: py_strip_def)

lemma steps_true_neutral:
  assumes "py_lower (py_strip x) = ''true neutral''"
  shows "lawfulness_step x [] = [''Neutral'']" "goodness_step x [] = [''Neutral'']"
proof -
  have "x \<noteq> []" using assms by (auto simp: py_strip_Nil py_lower_def)
  then show "lawfulness_step x [] = [''Neutral'']" "goodness_step x [] = [''Neutral'']"
    using assms by (simp_all add: lawfulness_step_def goodness_step_def)
qed

lemma steps_single:
  assumes "py_split CHR '' '' (py_strip x) = [t]"
  shows "lawfulness_step x [] = [t]" "goodness_step x [] = [t]"
proof -
  have "CHR '' '' \<notin> set (py_strip x)" using py_split_single [OF assms] by simp
  then have tn: "py_lower (py_strip x) \<noteq> ''true neutral''"
    using lower_true_neutral_has_space by blast
  show "lawfulness_step x [] = [t]" "goodness_step x [] = [t]"
  proof -
    have "lawfulness_step x [] = [t] \<and> goodness_step x [] = [t]"
    proof (cases "x = []")
      case True
      then have "t = []" using assms by (simp add: py_strip_Nil)
      with True show ?thesis by (simp add: lawfulness_step_def goodness_step_def)
    next
      case False
      then show ?thesis
        using assms tn by (simp add: lawfulness_step_def goodness_step_def)
    qed
    then show "lawfulness_step x [] = [t]" "goodness_step x [] = [t]" by simp_all
  qed
qed

lemma steps_multi:
  assumes "py_lower (py_strip x) \<noteq> ''true neutral''"
    "py_split CHR '' '' (py_strip x) = t0 # t1 # rest"
  shows "lawfulness_step x [] = [t0]" "goodness_step x [] = [t1]"
proof -
  have "x \<noteq> []" using assms(2) by (auto simp: py_strip_Nil)
  then show "lawfulness_step x [] = [t0]" "goodness_step x [] = [t1]"
    using assms by (simp_all add: lawfulness_step_def goodness_step_def)
qed

text \<open>
  Claim C4. Both decomposers work element by element: the result has the length of the
  input, its element at a position is the result for the input element at that position
  alone, and an empty input element gives an empty string there. A value that, stripped
  and lowered, is \<open>true neutral\<close> gives \<open>Neutral\<close> on both axes; a value whose
  stripped text splits at spaces into one token gives that token on both axes; any other
  value gives its first token for lawfulness and its second for goodness, whatever
  follows. The two lists of the specification's example are computed.
\<close>

theorem alignment_decomposers_elementwise:
  "length (get_lawfulness xs) = length xs \<and> length (get_goodness xs) = length xs
   \<and> (i < length xs \<longrightarrow>
        get_lawfulness xs ! i = hd (get_lawfulness [xs ! i])
      \<and> get_goodness xs ! i = hd (get_goodness [xs ! i])
      \<and> (xs ! i = [] \<longrightarrow> get_lawfulness xs ! i = [] \<and> get_goodness xs ! i = []))
   \<and> (py_lower (py_strip x) = ''true neutral'' \<longrightarrow>
        get_lawfulness [x] = [''Neutral''] \<and> get_goodness [x] = [''Neutral''])
   \<and> (py_split CHR '' '' (py_strip x) = [t] \<longrightarrow>
        get_lawfulness [x] = [t] \<and> get_goodness [x] = [t])
   \<and> (py_lower (py_strip x) \<noteq> ''true neutral''
        \<and> py_split CHR '' '' (py_strip x) = t0 # t1 # rest \<longrightarrow>
        get_lawfulness [x] = [t0] \<and> get_goodness [x] = [t1])
   \<and> get_lawfulness [''Chaotic Evil'', ''True Neutral'', [], ''Good'']
        = [''Chaotic'', ''Neutral'', [], ''Good'']
   \<and> get_goodness [''Chaotic Evil'', ''True Neutral'', [], ''Good'']
        = [''Evil'', ''Neutral'', [], ''Good'']"
proof -
  have len: "length (get_lawfulness xs) = length xs \<and> length (get_goodness xs) = length xs"
    by (simp add: get_lawfulness_map get_goodness_map)
  have nth: "i < length xs \<longrightarrow>
        get_lawfulness xs ! i = hd (get_lawfulness [xs ! i])
      \<and> get_goodness xs ! i = hd (get_goodness [xs ! i])
      \<and> (xs ! i = [] \<longrightarrow> get_lawfulness xs ! i = [] \<and> get_goodness xs ! i = [])"
    by (simp add: get_lawfulness_map get_goodness_map lawfulness_of_empty)
  have one: "get_lawfulness [y] = lawfulness_step y []" "get_goodness [y] = goodness_step y []"
    for y
    by (simp_all add: get_lawfulness_def get_goodness_def)
  have tn: "py_lower (py_strip x) = ''true neutral'' \<longrightarrow>
        get_lawfulness [x] = [''Neutral''] \<and> get_goodness [x] = [''Neutral'']"
    using steps_true_neutral [of x] by (simp add: one)
  have single: "py_split CHR '' '' (py_strip x) = [t] \<longrightarrow>
        get_lawfulness [x] = [t] \<and> get_goodness [x] = [t]"
    using steps_single [of x t] by (simp add: one)
  have multi: "py_lower (py_strip x) \<noteq> ''true neutral''
        \<and> py_split CHR '' '' (py_strip x) = t0 # t1 # rest \<longrightarrow>
        get_lawfulness [x] = [t0] \<and> get_goodness [x] = [t1]"
    using steps_multi [of x t0 t1 rest] by (simp add: one)
  have ex1: "get_lawfulness [''Chaotic Evil'', ''True Neutral'', [], ''Good'']
        = [''Chaotic'', ''Neutral'', [], ''Good'']"
    by code_simp
  have ex2: "get_goodness [''Chaotic Evil'', ''True Neutral'', [], ''Good'']
        = [''Evil'', ''Neutral'', [], ''Good'']"
    by code_simp
  from len nth tn single multi ex1 ex2 show ?thesis by blast
qed

theorem alignment_decomposers_elementwise_witness:
  "(1::nat) < length [''Lawful Good'', '' TRUE neutral '']
   \<and> '' TRUE neutral '' \<noteq> [] \<and> py_lower (py_strip '' TRUE neutral '') = ''true neutral''
   \<and> get_lawfulness [''Lawful Good'', '' TRUE neutral ''] ! 1 = ''Neutral''
   \<and> get_goodness ['' TRUE neutral ''] = [''Neutral'']"
proof -
  have h1: "(1::nat) < length [''Lawful Good'', '' TRUE neutral '']" by simp
  have h2: "'' TRUE neutral '' \<noteq> []" by simp
  have h3: "py_lower (py_strip '' TRUE neutral '') = ''true neutral''" by code_simp
  have h4: "hd (get_lawfulness [[''Lawful Good'', '' TRUE neutral ''] ! 1]) = ''Neutral''"
    by code_simp
  from alignment_decomposers_elementwise
    [of "[''Lawful Good'', '' TRUE neutral '']" 1 "'' TRUE neutral ''" "[]" "[]" "[]" "[]"]
    h1 h2 h3 h4
  show ?thesis by simp
qed

subsection \<open>The record extractor\<close>

lemma first_line_find:
  "first_line keyword lines =
     (case find (\<lambda>line. startswith line keyword) lines of Some line \<Rightarrow> line | None \<Rightarrow> [])"
  by (induction lines) simp_all

lemma fold_update_keys:
  "fst ` set (fold (\<lambda>k m. AList.update k (f k) m) ks m) = set ks \<union> fst ` set m"
  by (induction ks arbitrary: m) (auto simp: dom_update)

lemma fold_update_distinct:
  "distinct (map fst m) \<Longrightarrow> distinct (map fst (fold (\<lambda>k m. AList.update k (f k) m) ks m))"
  by (induction ks arbitrary: m) (simp_all add: distinct_update)

lemma fold_update_map_of:
  "map_of (fold (\<lambda>k m. AList.update k (f k) m) ks m) k =
     (if k \<in> set ks then Some (f k) else map_of m k)"
  by (induction ks arbitrary: m) (auto simp: update_conv')

lemma raw_info_keys:
  "distinct (map fst (raw_info keywords lines))"
  "set (map fst (raw_info keywords lines)) = set keywords"
  by (simp_all add: raw_info_def fold_update_distinct fold_update_keys)

lemma raw_info_value:
  "keyword \<in> set keywords \<Longrightarrow>
     map_of (raw_info keywords lines) keyword = Some (first_line keyword lines)"
  by (simp add: raw_info_def fold_update_map_of)

lemma clean_fold_keys:
  "fst ` set xs \<subseteq> fst ` set m \<Longrightarrow>
     map fst (fold (\<lambda>(key, value) info. AList.update key (g key value) info) xs m) = map fst m"
proof (induction xs arbitrary: m)
  case Nil
  then show ?case by simp
next
  case (Cons x xs)
  obtain k v where x: "x = (k, v)" by (cases x)
  have k: "k \<in> fst ` set m" using Cons.prems x by auto
  have keys: "map fst (AList.update k (g k v) m) = map fst m"
    using k by (simp add: update_keys)
  have "fst ` set xs \<subseteq> fst ` set (AList.update k (g k v) m)"
    using Cons.prems by (auto simp: dom_update)
  from Cons.IH [OF this] show ?case by (simp add: x keys)
qed

lemma clean_fold_map_of:
  "distinct (map fst xs) \<Longrightarrow>
     map_of (fold (\<lambda>(key, value) info. AList.update key (g key value) info) xs m) k =
       (case map_of xs k of Some v \<Rightarrow> Some (g k v) | None \<Rightarrow> map_of m k)"
proof (induction xs arbitrary: m)
  case Nil
  then show ?case by simp
next
  case (Cons x xs)
  obtain k0 v0 where x: "x = (k0, v0)" by (cases x)
  have d: "distinct (map fst xs)" and nk: "k0 \<notin> fst ` set xs"
    using Cons.prems x by auto
  have none: "map_of xs k0 = None" using nk by (simp add: map_of_eq_None_iff)
  show ?case
    using Cons.IH [OF d, of "AList.update k0 (g k0 v0) m"] none
    by (auto simp: x update_conv' split: option.splits)
qed

lemma clean_info_keys: "map fst (clean_info m) = map fst m"
  unfolding clean_info_def by (rule clean_fold_keys) simp

lemma clean_info_value:
  "distinct (map fst m) \<Longrightarrow>
     map_of (clean_info m) k = map_option (clean_value k) (map_of m k)"
  unfolding clean_info_def
  by (simp add: clean_fold_map_of split: option.splits)

lemma clean_value_empty: "clean_value key [] = []"
  by (simp add: clean_value_def py_replace_def py_strip_def)

text \<open>
  Claim C2. For every text and every list of keywords, the dictionary built by the keyword
  scan has one entry for each keyword and no other: its keys are distinct and are the
  keywords. The value at a keyword is the first of the pre-filtered lines that starts with
  the keyword, and the empty string when no such line exists. The dictionary returned after
  cleaning has the same keys, and the value at a keyword that starts no line is still the
  empty string.
\<close>

theorem keyword_scan_one_entry_per_keyword:
  "distinct (map fst (raw_info keywords (clean_lines keywords text)))
   \<and> set (map fst (raw_info keywords (clean_lines keywords text))) = set keywords
   \<and> (keyword \<in> set keywords \<longrightarrow>
        map_of (raw_info keywords (clean_lines keywords text)) keyword =
          Some (case find (\<lambda>line. startswith line keyword) (clean_lines keywords text) of
                  Some line \<Rightarrow> line | None \<Rightarrow> []))
   \<and> map fst (monster_info_of_text keywords text)
        = map fst (raw_info keywords (clean_lines keywords text))
   \<and> (keyword \<in> set keywords
        \<and> find (\<lambda>line. startswith line keyword) (clean_lines keywords text) = None \<longrightarrow>
        map_of (monster_info_of_text keywords text) keyword = Some [])"
proof -
  let ?lines = "clean_lines keywords text"
  have a: "distinct (map fst (raw_info keywords ?lines))"
    and b: "set (map fst (raw_info keywords ?lines)) = set keywords"
    by (rule raw_info_keys)+
  have c: "keyword \<in> set keywords \<longrightarrow>
        map_of (raw_info keywords ?lines) keyword =
          Some (case find (\<lambda>line. startswith line keyword) ?lines of
                  Some line \<Rightarrow> line | None \<Rightarrow> [])"
    by (simp add: raw_info_value first_line_find)
  have d: "map fst (monster_info_of_text keywords text) = map fst (raw_info keywords ?lines)"
    by (simp add: monster_info_of_text_def clean_info_keys)
  have e: "keyword \<in> set keywords
        \<and> find (\<lambda>line. startswith line keyword) ?lines = None \<longrightarrow>
        map_of (monster_info_of_text keywords text) keyword = Some []"
    using c by (auto simp: monster_info_of_text_def clean_info_value [OF a] clean_value_empty)
  from a b c d e show ?thesis by blast
qed

theorem keyword_scan_one_entry_per_keyword_witness:
  "''Type'' \<in> set [''Race'', ''Type'', ''Race'']
   \<and> raw_info [''Race'', ''Type'', ''Race'']
        (clean_lines [''Race'', ''Type'', ''Race''] ''Race: Orc'') =
          [(''Race'', ''Race: Orc''), (''Type'', [])]
   \<and> map_of (monster_info_of_text [''Race'', ''Type'', ''Race''] ''Race: Orc'') ''Type''
        = Some []"
proof -
  have h1: "''Type'' \<in> set [''Race'', ''Type'', ''Race'']" by simp
  have h2: "find (\<lambda>line. startswith line ''Type'')
              (clean_lines [''Race'', ''Type'', ''Race''] ''Race: Orc'') = None"
    by code_simp
  have h3: "raw_info [''Race'', ''Type'', ''Race'']
        (clean_lines [''Race'', ''Type'', ''Race''] ''Race: Orc'') =
          [(''Race'', ''Race: Orc''), (''Type'', [])]"
    by code_simp
  from keyword_scan_one_entry_per_keyword
    [of "[''Race'', ''Type'', ''Race'']" "''Race: Orc''" "''Type''"] h1 h2 h3
  show ?thesis by simp
qed

lemma replace_from_skip:
  "replace_from old new k s = replace_from old new 0 (drop k s)"
proof (induction s arbitrary: k)
  case Nil
  then show ?case by simp
next
  case (Cons c cs)
  show ?case
  proof (cases k)
    case 0
    then show ?thesis by simp
  next
    case (Suc n)
    then show ?thesis using Cons.IH [of n] by simp
  qed
qed

lemma replace_from_remove_every:
  "old \<noteq> [] \<Longrightarrow> replace_from old [] 0 s = remove_every old s"
proof (induction old s rule: remove_every.induct)
  case (1 old s)
  show ?case
  proof (cases s)
    case Nil
    then show ?thesis by (subst remove_every.simps) simp
  next
    case (Cons c cs)
    show ?thesis
    proof (cases "prefix old s")
      case True
      have "replace_from old [] 0 s = replace_from old [] (length old - 1) cs"
        using True Cons by simp
      also have "\<dots> = replace_from old [] 0 (drop (length old - 1) cs)"
        by (rule replace_from_skip)
      also have "drop (length old - 1) cs = drop (length old) s"
        using Cons "1.prems" by (cases old) simp_all
      also have "replace_from old [] 0 (drop (length old) s) = remove_every old (drop (length old) s)"
        using "1.IH"(1) "1.prems" True Cons by simp
      also have "\<dots> = remove_every old s"
        using True Cons "1.prems" by (subst (2) remove_every.simps) simp
      finally show ?thesis .
    next
      case False
      have "replace_from old [] 0 s = c # replace_from old [] 0 cs"
        using False Cons by simp
      also have "replace_from old [] 0 cs = remove_every old cs"
        using "1.IH"(2) "1.prems" False Cons by simp
      also have "c # remove_every old cs = remove_every old s"
        using False Cons "1.prems" by (subst (2) remove_every.simps) simp
      finally show ?thesis .
    qed
  qed
qed

lemma concat_singletons: "concat (map (\<lambda>c. [c]) s) = s"
  by (induction s) simp_all

lemma py_replace_remove_every: "py_replace old [] s = remove_every old s"
proof (cases "old = []")
  case True
  then show ?thesis
    by (subst remove_every.simps) (simp add: py_replace_def concat_singletons)
next
  case False
  then show ?thesis by (simp add: py_replace_def replace_from_remove_every)
qed

lemma replace_from_char: "replace_from [x] [] 0 s = filter (\<lambda>c. c \<noteq> x) s"
  by (induction s) auto

lemma py_replace_char: "py_replace [x] [] s = filter (\<lambda>c. c \<noteq> x) s"
  by (simp add: py_replace_def replace_from_char)

text \<open>
  Claim C3, as stated: the keyword is removed at its first occurrence only. The source
  calls \<^verbatim>\<open>value.replace(key, "")\<close>, which removes every occurrence: for the keyword
  \<open>Race\<close> and the line \<open>Race: Race Lord\<close> the code returns \<open>Lord\<close>, where the steps of
  the claim return \<open>Race Lord\<close>.
\<close>

theorem clean_value_first_occurrence_counterexample:
  "clean_value ''Race'' ''Race: Race Lord'' = ''Lord''
   \<and> clean_value_spec ''Race'' ''Race: Race Lord'' = ''Race Lord''
   \<and> clean_value ''Race'' ''Race: Race Lord'' \<noteq> clean_value_spec ''Race'' ''Race: Race Lord''"
proof -
  have a: "clean_value ''Race'' ''Race: Race Lord'' = ''Lord''" by code_simp
  have b: "clean_value_spec ''Race'' ''Race: Race Lord'' = ''Race Lord''" by code_simp
  show ?thesis unfolding a b by simp
qed

text \<open>
  Claim C3, amended. For every keyword and every line, the cleaned value is the line with
  every occurrence of the keyword removed (found from the left, not overlapping), then
  every colon removed, then every occurrence of the marker \<open>(List)\<close> removed, then
  stripped of surrounding whitespace: these steps, in this order.
\<close>

theorem clean_value_removes_every_occurrence:
  "clean_value key line =
     py_strip (remove_every ''(List)'' (filter (\<lambda>c. c \<noteq> CHR '':'') (remove_every key line)))"
proof -
  have colon: "py_replace '':'' [] s = filter (\<lambda>c. c \<noteq> CHR '':'') s" for s
    by (rule py_replace_char)
  show ?thesis
    unfolding clean_value_def Let_def colon by (simp only: py_replace_remove_every)
qed

subsection \<open>The similarity score\<close>

text \<open>
  Claim C7. The loop of the matcher tests a candidate against \<^verbatim>\<open>None\<close> after every
  candidate has been converted with \<^verbatim>\<open>str\<close>, so the test never succeeds: a \<^verbatim>\<open>None\<close> entry
  is scored as the text \<open>None\<close>, lowered to \<open>none\<close>, not as the empty string. Against
  the query \<open>none\<close> its score is 1, where the empty string scores 0, and the matcher
  returns the text \<open>None\<close> in preference to the candidate \<open>nine\<close>.
\<close>

theorem none_candidate_scored_as_text_none:
  "candidate_scores ratio quest_name [PNone]
     = [ratio (py_strip (py_lower (py_str quest_name))) ''none'']
   \<and> candidate_scores SequenceMatcher_ratio (PStr ''none'') [PNone] = [1]
   \<and> SequenceMatcher_ratio ''none'' [] = 0
   \<and> get_closest_matching_quest SequenceMatcher_ratio (PStr ''none'') [PNone, PStr ''nine'']
       = Inr ''None''"
proof -
  have none: "py_strip (py_lower ''None'') = ''none''" by code_simp
  have a: "candidate_scores ratio quest_name [PNone]
     = [ratio (py_strip (py_lower (py_str quest_name))) ''none'']"
    by (simp add: candidate_scores_def candidate_score_def none)
  have b: "candidate_scores SequenceMatcher_ratio (PStr ''none'') [PNone] = [1]" by code_simp
  have c: "SequenceMatcher_ratio ''none'' [] = 0" by code_simp
  have d: "get_closest_matching_quest SequenceMatcher_ratio (PStr ''none'') [PNone, PStr ''nine'']
       = Inr ''None''"
    by code_simp
  from a b c d show ?thesis by blast
qed

text \<open>
  Claim C9, as stated: the score of \<open>(a, b)\<close> is the score of \<open>(b, a)\<close>. The matching
  blocks are found by scanning the first string against the second, and the first longest
  block found decides what can still be matched: \<open>tide\<close> against \<open>diet\<close> scores a quarter,
  \<open>diet\<close> against \<open>tide\<close> a half.
\<close>

theorem similarity_symmetric_counterexample:
  "candidate_score SequenceMatcher_ratio ''tide'' (PStr ''diet'') = 1 / 4
   \<and> candidate_score SequenceMatcher_ratio ''diet'' (PStr ''tide'') = 1 / 2
   \<and> candidate_score SequenceMatcher_ratio ''tide'' (PStr ''diet'')
       \<noteq> candidate_score SequenceMatcher_ratio ''diet'' (PStr ''tide'')"
proof -
  have a: "candidate_score SequenceMatcher_ratio ''tide'' (PStr ''diet'') = 1 / 4" by code_simp
  have b: "candidate_score SequenceMatcher_ratio ''diet'' (PStr ''tide'') = 1 / 2" by code_simp
  show ?thesis unfolding a b by simp
qed

lemma chain_b_absent: "elt \<notin> set b \<Longrightarrow> chain_b b elt = []"
proof -
  assume "elt \<notin> set b"
  then have "filter (\<lambda>j. b ! j = elt) [0..<length b] = []"
    by (auto simp: filter_empty_conv)
  then show ?thesis by (simp add: chain_b_def)
qed

lemma fold_scan_nothing:
  assumes "\<forall>i\<in>set is. f i = []"
  shows "snd (fold (\<lambda>i (j2len, best). scan_b blo bhi i j2len (f i) (Map.empty, best)) is (m, best))
           = best"
  using assms by (induction "is" arbitrary: m) simp_all

lemma longest_junk_free_disjoint:
  assumes "set a \<inter> set b = {}"
  shows "longest_junk_free a b 0 (length a) 0 (length b) = (0, 0, 0)"
proof -
  have "chain_b b (a ! i) = []" if "i < length a" for i
  proof -
    have "a ! i \<in> set a" using that by (rule nth_mem)
    with assms have "a ! i \<notin> set b" by blast
    then show ?thesis by (rule chain_b_absent)
  qed
  then have "\<forall>i\<in>set [0..<length a]. chain_b b (a ! i) = []" by simp
  then show ?thesis
    unfolding longest_junk_free_def by (rule fold_scan_nothing)
qed

lemma find_longest_match_disjoint:
  assumes "set a \<inter> set b = {}"
  shows "find_longest_match a b 0 (length a) 0 (length b) = (0, 0, 0)"
proof -
  have l: "extend_left a b 0 0 (0, 0, 0) = (0, 0, 0)"
    by (subst extend_left.simps) simp
  have "\<not> (0 < length a \<and> 0 < length b \<and> a ! 0 = b ! 0)"
  proof
    assume h: "0 < length a \<and> 0 < length b \<and> a ! 0 = b ! 0"
    then have la: "0 < length a" and lb: "0 < length b" and eq: "a ! 0 = b ! 0"
      by blast+
    have "a ! 0 \<in> set a" using la by (rule nth_mem)
    moreover have "b ! 0 \<in> set b" using lb by (rule nth_mem)
    ultimately have "a ! 0 \<in> set a \<inter> set b" unfolding eq by blast
    with assms show False by blast
  qed
  then have r: "extend_right a b (length a) (length b) (0, 0, 0) = (0, 0, 0)"
    by (subst extend_right.simps) auto
  show ?thesis
    by (simp add: find_longest_match_def longest_junk_free_disjoint [OF assms] l r)
qed

lemma ratio_disjoint:
  assumes "set a \<inter> set b = {}"
  shows "SequenceMatcher_ratio a b = (if a = [] \<and> b = [] then 1 else 0)"
proof -
  have "matching_loop a b [(0, length a, 0, length b)] [] = matching_loop a b [] []"
    by (subst matching_loop.simps) (simp add: find_longest_match_disjoint [OF assms])
  also have "\<dots> = []" by (simp add: matching_loop.simps)
  finally have "get_matching_blocks a b = [(length a, length b, 0)]"
    by (simp add: get_matching_blocks_def)
  then show ?thesis by (simp add: SequenceMatcher_ratio_def calculate_ratio_def)
qed

text \<open>
  Claim C9, amended. The score of \<open>(a, b)\<close> is the score of \<open>(b, a)\<close> when the two
  strings, lowered and stripped, are equal, and when they have no character in common;
  in the second case both scores are 0, or 1 when both strings are empty.
\<close>

theorem similarity_symmetric_when_equal_or_disjoint:
  assumes "py_strip (py_lower a) = py_strip (py_lower b)
           \<or> set (py_strip (py_lower a)) \<inter> set (py_strip (py_lower b)) = {}"
  shows "candidate_score SequenceMatcher_ratio a (PStr b)
           = candidate_score SequenceMatcher_ratio b (PStr a)
       \<and> (set (py_strip (py_lower a)) \<inter> set (py_strip (py_lower b)) = {} \<longrightarrow>
            candidate_score SequenceMatcher_ratio a (PStr b)
              = (if py_strip (py_lower a) = [] \<and> py_strip (py_lower b) = [] then 1 else 0))"
proof -
  let ?a = "py_strip (py_lower a)" and ?b = "py_strip (py_lower b)"
  have sc: "candidate_score SequenceMatcher_ratio x (PStr y)
        = SequenceMatcher_ratio (py_strip (py_lower x)) (py_strip (py_lower y))" for x y
    by (simp add: candidate_score_def)
  have dis: "SequenceMatcher_ratio ?a ?b = (if ?a = [] \<and> ?b = [] then 1 else 0)
           \<and> SequenceMatcher_ratio ?b ?a = (if ?a = [] \<and> ?b = [] then 1 else 0)"
    if d: "set ?a \<inter> set ?b = {}"
  proof -
    have d': "set ?b \<inter> set ?a = {}" using d by blast
    show ?thesis using ratio_disjoint [OF d] ratio_disjoint [OF d'] by auto
  qed
  from assms show ?thesis
  proof
    assume e: "?a = ?b"
    have "set ?a \<inter> set ?b = {} \<longrightarrow>
            SequenceMatcher_ratio ?a ?b = (if ?a = [] \<and> ?b = [] then 1 else 0)"
      using dis by blast
    then show ?thesis unfolding sc using e by simp
  next
    assume d: "set ?a \<inter> set ?b = {}"
    then show ?thesis unfolding sc using dis [OF d] by simp
  qed
qed

theorem similarity_symmetric_when_equal_or_disjoint_witness:
  "(py_strip (py_lower ''Tide '') = py_strip (py_lower ''fog'')
    \<or> set (py_strip (py_lower ''Tide '')) \<inter> set (py_strip (py_lower ''fog'')) = {})
   \<and> candidate_score SequenceMatcher_ratio ''Tide '' (PStr ''fog'') = 0
   \<and> candidate_score SequenceMatcher_ratio ''fog'' (PStr ''Tide '') = 0"
proof -
  have a: "py_strip (py_lower ''Tide '') = ''tide''" by code_simp
  have b: "py_strip (py_lower ''fog'') = ''fog''" by code_simp
  have h: "py_strip (py_lower ''Tide '') = py_strip (py_lower ''fog'')
    \<or> set (py_strip (py_lower ''Tide '')) \<inter> set (py_strip (py_lower ''fog'')) = {}"
    unfolding a b by simp
  from similarity_symmetric_when_equal_or_disjoint [OF h] h show ?thesis
    unfolding a b by simp
qed

subsection \<open>The main loop\<close>

text \<open>
  Claim C8, as stated: an error in the resolution of one query does not end the loop, which
  ends on a quit word or on a configuration that cannot be loaded only. The call of
  \<^verbatim>\<open>get_monsters_in_quest\<close> in \<^verbatim>\<open>main_loop\<close> is not inside any \<^verbatim>\<open>try\<close>: when the page of
  the quests cannot be read for the first query, the loop ends with that exception, prints
  nothing, and never reads the second line, here the quit word.
\<close>

theorem main_loop_query_error_counterexample:
  "main_loop (Inr [''Race'', ''Alignment''])
     (get_monsters_in_quest SequenceMatcher_ratio
        \<lparr>get_quest_urls = Inl (OtherError ''ConnectionError''),
         get_monster_urls = (\<lambda>url. Inr []),
         content_text = (\<lambda>url. Inr [])\<rparr>)
     [''The Shroud'', ''quit'']
   = ([], Raised (OtherError ''ConnectionError''))
   \<and> Raised (OtherError ''ConnectionError'') \<noteq> Quit
   \<and> Raised (OtherError ''ConnectionError'') \<noteq> ConfigMissing"
proof -
  have n: "py_lower (py_strip ''The Shroud'') = ''the shroud''" by code_simp
  show ?thesis
    by (simp add: n get_monsters_in_quest_def)
qed

lemma main_loop_step:
  assumes "py_lower (py_strip line) \<notin> set [''q'', ''quit'', ''exit'']"
    and "resolve configs (py_lower (py_strip line)) = Inr df"
  shows "main_loop (Inr configs) resolve (line # inputs) =
           (df # fst (main_loop (Inr configs) resolve inputs),
            snd (main_loop (Inr configs) resolve inputs))"
  using assms by (simp add: Let_def split: prod.splits)

lemma main_loop_prefix:
  assumes "\<forall>l\<in>set queries. py_lower (py_strip l) \<notin> set [''q'', ''quit'', ''exit'']
             \<and> resolve configs (py_lower (py_strip l)) = Inr (table l)"
  shows "main_loop (Inr configs) resolve (queries @ inputs) =
           (map table queries @ fst (main_loop (Inr configs) resolve inputs),
            snd (main_loop (Inr configs) resolve inputs))"
  using assms
proof (induction queries)
  case Nil
  then show ?case by simp
next
  case (Cons l ls)
  have l: "py_lower (py_strip l) \<notin> set [''q'', ''quit'', ''exit'']"
    "resolve configs (py_lower (py_strip l)) = Inr (table l)"
    using Cons.prems by simp_all
  have rest: "\<forall>l\<in>set ls. py_lower (py_strip l) \<notin> set [''q'', ''quit'', ''exit'']
             \<and> resolve configs (py_lower (py_strip l)) = Inr (table l)"
    using Cons.prems by simp
  have "main_loop (Inr configs) resolve ((l # ls) @ inputs) =
          (table l # fst (main_loop (Inr configs) resolve (ls @ inputs)),
           snd (main_loop (Inr configs) resolve (ls @ inputs)))"
    using main_loop_step [where resolve = resolve and configs = configs and line = l
        and df = "table l" and inputs = "ls @ inputs"] l by simp
  then show ?case using Cons.IH rest by simp
qed

text \<open>
  Claim C8, amended. An error in the resolution of a query is not caught: it leaves the
  loop, and no later line is read. When every line of \<open>queries\<close> is a query that is resolved,
  the loop prints their tables in order and then ends at the next line: with that
  exception when the line is a query whose resolution raises, as a quit when it is a quit
  word, and with \<^verbatim>\<open>EOFError\<close> when there is no next line. When the configuration file is
  not found the loop ends at the first query, with the message; when loading the
  configuration raises any other exception, the loop ends at the first query with that
  exception, whatever lines follow.
\<close>

theorem main_loop_ends_at_first_error:
  assumes "\<forall>l\<in>set queries. py_lower (py_strip l) \<notin> set [''q'', ''quit'', ''exit'']
             \<and> resolve configs (py_lower (py_strip l)) = Inr (table l)"
  shows "(py_lower (py_strip line) \<notin> set [''q'', ''quit'', ''exit'']
           \<and> resolve configs (py_lower (py_strip line)) = Inl err \<longrightarrow>
            main_loop (Inr configs) resolve (queries @ line # inputs)
              = (map table queries, Raised err))
       \<and> (py_lower (py_strip line) \<in> set [''q'', ''quit'', ''exit''] \<longrightarrow>
            main_loop (Inr configs) resolve (queries @ line # inputs) = (map table queries, Quit))
       \<and> main_loop (Inr configs) resolve queries = (map table queries, Raised EOFError)
       \<and> (py_lower (py_strip line) \<notin> set [''q'', ''quit'', ''exit''] \<longrightarrow>
            main_loop (Inl FileNotFoundError) resolve (line # inputs) = ([], ConfigMissing))
       \<and> (py_lower (py_strip line) \<notin> set [''q'', ''quit'', ''exit'']
           \<and> load_err \<noteq> FileNotFoundError \<longrightarrow>
            main_loop (Inl load_err) resolve (line # inputs) = ([], Raised load_err))"
proof -
  have p: "main_loop (Inr configs) resolve (queries @ xs) =
           (map table queries @ fst (main_loop (Inr configs) resolve xs),
            snd (main_loop (Inr configs) resolve xs))" for xs
    using main_loop_prefix [where resolve = resolve and configs = configs and table = table
        and queries = queries and inputs = xs] assms by blast
  have a: "py_lower (py_strip line) \<notin> set [''q'', ''quit'', ''exit'']
           \<and> resolve configs (py_lower (py_strip line)) = Inl err \<longrightarrow>
            main_loop (Inr configs) resolve (queries @ line # inputs)
              = (map table queries, Raised err)"
    by (simp add: p [of "line # inputs"] Let_def)
  have b: "py_lower (py_strip line) \<in> set [''q'', ''quit'', ''exit''] \<longrightarrow>
            main_loop (Inr configs) resolve (queries @ line # inputs) = (map table queries, Quit)"
    by (simp add: p [of "line # inputs"] Let_def)
  have c: "main_loop (Inr configs) resolve queries = (map table queries, Raised EOFError)"
    using p [of "[]"] by simp
  have d: "py_lower (py_strip line) \<notin> set [''q'', ''quit'', ''exit''] \<longrightarrow>
            main_loop (Inl FileNotFoundError) resolve (line # inputs) = ([], ConfigMissing)"
    by (simp add: Let_def)
  have e: "py_lower (py_strip line) \<notin> set [''q'', ''quit'', ''exit'']
           \<and> load_err \<noteq> FileNotFoundError \<longrightarrow>
            main_loop (Inl load_err) resolve (line # inputs) = ([], Raised load_err)"
    by (simp add: Let_def)
  from a b c d e show ?thesis by blast
qed

theorem main_loop_ends_at_first_error_witness:
  "py_lower (py_strip ''Shroud '') \<notin> set [''q'', ''quit'', ''exit'']
   \<and> (\<lambda>c q. if q = ''shroud'' then Inr q else Inl (OtherError ''Timeout''))
        [''Race''] (py_lower (py_strip ''Shroud '')) = Inr ''shroud''
   \<and> py_lower (py_strip ''Tide'') \<notin> set [''q'', ''quit'', ''exit'']
   \<and> (\<lambda>c q. if q = ''shroud'' then Inr q else Inl (OtherError ''Timeout''))
        [''Race''] (py_lower (py_strip ''Tide'')) = Inl (OtherError ''Timeout'')
   \<and> main_loop (Inr [''Race''])
        (\<lambda>c q. if q = ''shroud'' then Inr q else Inl (OtherError ''Timeout''))
        [''Shroud '', ''Tide'', ''Shroud '']
      = ([''shroud''], Raised (OtherError ''Timeout''))
   \<and> OtherError ''YAMLError'' \<noteq> FileNotFoundError
   \<and> main_loop (Inl (OtherError ''YAMLError''))
        (\<lambda>c q. if q = ''shroud'' then Inr q else Inl (OtherError ''Timeout''))
        [''Tide'', ''Shroud '']
      = ([], Raised (OtherError ''YAMLError''))
   \<and> main_loop (Inl FileNotFoundError)
        (\<lambda>c q. if q = ''shroud'' then Inr q else Inl (OtherError ''Timeout''))
        [''Tide'', ''Shroud '']
      = ([], ConfigMissing)"
proof -
  let ?resolve = "\<lambda>(c :: string list) q. if q = ''shroud'' then Inr q else Inl (OtherError ''Timeout'')"
  have n1: "py_lower (py_strip ''Shroud '') = ''shroud''" by code_simp
  have n2: "py_lower (py_strip ''Tide'') = ''tide''" by code_simp
  have h: "\<forall>l\<in>set [''Shroud ''].
       py_lower (py_strip l) \<notin> set [''q'', ''quit'', ''exit'']
       \<and> ?resolve [''Race''] (py_lower (py_strip l)) = Inr (py_lower (py_strip l))"
    by (simp add: n1)
  from main_loop_ends_at_first_error
         [where resolve = ?resolve and configs = "[''Race'']"
            and table = "\<lambda>l. py_lower (py_strip l)" and queries = "[''Shroud '']"
            and line = "''Tide''" and err = "OtherError ''Timeout''"
            and load_err = "OtherError ''YAMLError''"
            and inputs = "[''Shroud '']"]
  show ?thesis using h by (simp add: n1 n2)
qed

subsection \<open>The table of monsters\<close>

lemma fold_columns_set:
  "set (fold (\<lambda>key cols. if key \<in> set cols then cols else cols @ [key]) ks acc)
     = set ks \<union> set acc"
  by (induction ks arbitrary: acc) auto

lemma columns_DataFrame:
  "set (columns (DataFrame data)) = (\<Union>row\<in>set data. fst ` set row)"
  by (auto simp: DataFrame_def fold_columns_set)

lemma rows_DataFrame: "rows (DataFrame data) = data"
  by (simp add: DataFrame_def)

lemma uniform_DataFrame:
  assumes "\<forall>row\<in>set data. fst ` set row = K"
  shows "uniform (DataFrame data)"
  using assms by (auto simp: uniform_def columns_DataFrame rows_DataFrame)

lemma uniform_cell:
  assumes "uniform df" "c \<in> set (columns df)" "row \<in> set (rows df)"
  shows "\<exists>s. map_of row c = Some s"
proof -
  have "c \<in> fst ` set row" using assms by (simp add: uniform_def)
  then have "map_of row c \<noteq> None" by (simp add: map_of_eq_None_iff)
  then show ?thesis by blast
qed

lemma set_column_Inr:
  assumes "set_column df c vals = Inr df'"
  shows "set (columns df') = insert c (set (columns df))"
    and "uniform df \<Longrightarrow> uniform df'"
proof -
  have len: "length vals = length (rows df)"
    using assms by (auto simp: set_column_def split: if_splits)
  have df': "df' = \<lparr>columns = (if c \<in> set (columns df) then columns df else columns df @ [c]),
                rows = map (\<lambda>(row, v). AList.update c v row) (zip (rows df) vals)\<rparr>"
    using assms len by (simp add: set_column_def)
  show cols: "set (columns df') = insert c (set (columns df))"
    by (auto simp: df')
  show "uniform df'" if u: "uniform df"
    unfolding uniform_def
  proof
    fix row' assume "row' \<in> set (rows df')"
    then obtain row v where rv: "(row, v) \<in> set (zip (rows df) vals)"
      and row': "row' = AList.update c v row"
      by (auto simp: df')
    have "row \<in> set (rows df)" using rv by (rule set_zip_leftD)
    then have "fst ` set row = set (columns df)" using u by (simp add: uniform_def)
    then show "fst ` set row' = set (columns df')"
      by (simp add: row' cols dom_update)
  qed
qed

lemma drop_column_Inr:
  assumes "drop_column df c = Inr df'"
  shows "set (columns df') = set (columns df) - {c}"
    and "uniform df \<Longrightarrow> uniform df'"
proof -
  have df': "df' = \<lparr>columns = removeAll c (columns df), rows = map (AList.delete c) (rows df)\<rparr>"
    using assms by (auto simp: drop_column_def split: if_splits)
  show cols: "set (columns df') = set (columns df) - {c}"
    by (simp add: df')
  show "uniform df'" if u: "uniform df"
    unfolding uniform_def
  proof
    fix row' assume "row' \<in> set (rows df')"
    then obtain row where row: "row \<in> set (rows df)" and row': "row' = AList.delete c row"
      by (auto simp: df')
    have "fst ` set row = set (columns df)" using u row by (simp add: uniform_def)
    moreover have "fst ` set (AList.delete c row) = fst ` set row - {c}"
      using delete_keys [of c row] by (metis set_map set_removeAll)
    ultimately show "fst ` set row' = set (columns df')"
      by (simp add: row' cols)
  qed
qed

lemma sort_values_Inr:
  assumes "sort_values cols df = Inr df'"
  shows "set cols \<subseteq> set (columns df)"
    and "columns df' = columns df"
    and "rows df' = sort_key (\<lambda>row. map (\<lambda>c. sort_cell (map_of row c)) cols) (rows df)"
    and "uniform df \<Longrightarrow> uniform df'"
proof -
  have none: "find (\<lambda>c. c \<notin> set (columns df)) cols = None"
    using assms by (auto simp: sort_values_def split: option.splits)
  then show "set cols \<subseteq> set (columns df)" by (auto simp: find_None_iff)
  have df': "df' = df\<lparr>rows := sort_key (\<lambda>row. map (\<lambda>c. sort_cell (map_of row c)) cols) (rows df)\<rparr>"
    using assms none by (simp add: sort_values_def)
  show "columns df' = columns df" by (simp add: df')
  show "rows df' = sort_key (\<lambda>row. map (\<lambda>c. sort_cell (map_of row c)) cols) (rows df)"
    by (simp add: df')
  show "uniform df'" if "uniform df"
    using that by (simp add: uniform_def df')
qed

text \<open>
  The frame that \<open>clean_up\<close> sorts: when the function returns, the frame before the sort has
  the columns of the frame built, with the alignment replaced by its two parts if it was
  there.
\<close>

lemma clean_up_Inr:
  assumes "clean_up monster_info = Inr df"
  shows "\<exists>pre. sort_values [''Lawfulness'', ''Goodness'', ''Race'', ''Name''] pre = Inr df
           \<and> (uniform (DataFrame monster_info) \<longrightarrow> uniform pre)
           \<and> set (columns pre) =
               (if ''Alignment'' \<in> set (columns (DataFrame monster_info))
                then insert ''Goodness'' (insert ''Lawfulness''
                       (set (columns (DataFrame monster_info)))) - {''Alignment''}
                else set (columns (DataFrame monster_info)))"
proof (cases "''Alignment'' \<in> set (columns (DataFrame monster_info))")
  case False
  then show ?thesis
    using assms by (auto simp: clean_up_def Let_def)
next
  case True
  let ?df0 = "DataFrame monster_info"
  from assms True obtain lawfulness df1 goodness df2 pre where
    s1: "set_column ?df0 ''Lawfulness'' lawfulness = Inr df1" and
    s2: "set_column df1 ''Goodness'' goodness = Inr df2" and
    s3: "drop_column df2 ''Alignment'' = Inr pre" and
    s4: "sort_values [''Lawfulness'', ''Goodness'', ''Race'', ''Name''] pre = Inr df"
    by (auto simp: clean_up_def Let_def split: sum.splits)
  have cols: "set (columns pre) =
      insert ''Goodness'' (insert ''Lawfulness'' (set (columns ?df0))) - {''Alignment''}"
    by (simp add: drop_column_Inr(1) [OF s3] set_column_Inr(1) [OF s2] set_column_Inr(1) [OF s1])
  have uni: "uniform ?df0 \<longrightarrow> uniform pre"
    using set_column_Inr(2) [OF s1] set_column_Inr(2) [OF s2] drop_column_Inr(2) [OF s3]
    by blast
  from s4 uni cols True show ?thesis by auto
qed

lemma clean_up_missing_column:
  assumes "c \<in> set [''Lawfulness'', ''Goodness'', ''Race'', ''Name'']"
    and "c \<notin> set (columns (DataFrame monster_info))"
    and "c \<in> set [''Lawfulness'', ''Goodness''] \<longrightarrow>
           ''Alignment'' \<notin> set (columns (DataFrame monster_info))"
  shows "\<exists>err. clean_up monster_info = Inl err"
proof (cases "clean_up monster_info")
  case (Inl err)
  then show ?thesis by blast
next
  case (Inr df)
  from clean_up_Inr [OF Inr] obtain pre where
    s: "sort_values [''Lawfulness'', ''Goodness'', ''Race'', ''Name''] pre = Inr df" and
    cols: "set (columns pre) =
               (if ''Alignment'' \<in> set (columns (DataFrame monster_info))
                then insert ''Goodness'' (insert ''Lawfulness''
                       (set (columns (DataFrame monster_info)))) - {''Alignment''}
                else set (columns (DataFrame monster_info)))"
    by blast
  have "c \<in> set (columns pre)" using sort_values_Inr(1) [OF s] assms(1) by blast
  with cols assms(2,3) have False by (auto split: if_splits)
  then show ?thesis ..
qed

lemma clean_up_no_alignment:
  assumes "''Alignment'' \<notin> set (columns (DataFrame monster_info))"
    and "''Lawfulness'' \<notin> set (columns (DataFrame monster_info))"
  shows "clean_up monster_info = Inl (KeyError ''Lawfulness'')"
  using assms by (simp add: clean_up_def Let_def sort_values_def)

lemma merge_name_keys:
  "fst ` set (fold (\<lambda>(k, v) d. AList.update k v d) info d) = fst ` set info \<union> fst ` set d"
proof (induction info arbitrary: d)
  case Nil
  then show ?case by simp
next
  case (Cons kv info)
  obtain k v where kv: "kv = (k, v)" by (cases kv)
  show ?case by (auto simp: kv Cons.IH dom_update)
qed

lemma monster_info_of_text_keys:
  "fst ` set (monster_info_of_text keywords text) = set keywords"
proof -
  have "set (map fst (monster_info_of_text keywords text)) = set keywords"
    by (simp add: monster_info_of_text_def clean_info_keys raw_info_keys(2) del: set_map)
  then show ?thesis by simp
qed

lemma monster_info_list_keys:
  assumes "monster_info_list e keywords items = Inr infos"
  shows "\<forall>row\<in>set infos. fst ` set row = insert ''Name'' (set keywords)"
  using assms
proof (induction items arbitrary: infos)
  case Nil
  then show ?case by simp
next
  case (Cons item items)
  obtain key val where item: "item = (key, val)" by (cases item)
  from Cons.prems obtain info rest where
    i: "get_monster_info e keywords val = Inr info" and
    r: "monster_info_list e keywords items = Inr rest" and
    infos: "infos = fold (\<lambda>(k, v) d. AList.update k v d) info [(''Name'', key)] # rest"
    by (auto simp: item split: sum.splits)
  have "info = monster_info_of_text keywords (projr (content_text e val))"
    using i by (auto simp: get_monster_info_def split: sum.splits)
  then have "fst ` set info = set keywords" by (simp add: monster_info_of_text_keys)
  then have "fst ` set (fold (\<lambda>(k, v) d. AList.update k v d) info [(''Name'', key)])
      = insert ''Name'' (set keywords)"
    by (simp add: merge_name_keys)
  with Cons.IH [OF r] infos show ?case by simp
qed

lemma get_monsters_in_quest_Inr:
  assumes "get_monsters_in_quest ratio e keywords quest_name = Inr df"
  shows "\<exists>monster_info. clean_up monster_info = Inr df
           \<and> (\<forall>row\<in>set monster_info. fst ` set row = insert ''Name'' (set keywords))"
proof -
  from assms obtain quest_urls closest url monster_urls monster_info where
    "monster_info_list e keywords monster_urls = Inr monster_info"
    "clean_up monster_info = Inr df"
    by (auto simp: get_monsters_in_quest_def split: sum.splits option.splits)
  then show ?thesis using monster_info_list_keys by blast
qed

lemma four_keys_le:
  "([(0::nat, a), (0, b), (0, c), (0, d)] \<le> [(0, a'), (0, b'), (0, c'), (0, d')])
     = ((a :: string, b :: string, c :: string, d :: string) \<le> (a', b', c', d'))"
  by (auto simp: less_eq_prod_def less_prod_def)

text \<open>
  Claim C5. Whatever the wiki returns and whatever the keywords and the query, when
  \<^verbatim>\<open>get_monsters_in_quest\<close> returns a table, every row of it has a string in each of the
  columns \<open>Lawfulness\<close>, \<open>Goodness\<close>, \<open>Race\<close> and \<open>Name\<close>, and the rows are in ascending
  order of the tuple of these four strings, compared lexicographically by code point: each
  row is at most the one after it.
\<close>

theorem output_table_sorted:
  assumes "get_monsters_in_quest ratio e keywords quest_name = Inr df"
  shows "(\<forall>row\<in>set (rows df). \<forall>c\<in>set [''Lawfulness'', ''Goodness'', ''Race'', ''Name''].
            \<exists>s. map_of row c = Some s)
       \<and> sorted (map (\<lambda>row. (the (map_of row ''Lawfulness''), the (map_of row ''Goodness''),
                             the (map_of row ''Race''), the (map_of row ''Name'')))
                   (rows df))"
proof -
  let ?four = "[''Lawfulness'', ''Goodness'', ''Race'', ''Name'']"
  let ?key = "\<lambda>row. map (\<lambda>c. sort_cell (map_of row c)) ?four"
  let ?tuple = "\<lambda>row. (the (map_of row ''Lawfulness''), the (map_of row ''Goodness''),
                        the (map_of row ''Race''), the (map_of row ''Name''))"
  from get_monsters_in_quest_Inr [OF assms] obtain monster_info where
    c: "clean_up monster_info = Inr df" and
    k: "\<forall>row\<in>set monster_info. fst ` set row = insert ''Name'' (set keywords)"
    by blast
  have u0: "uniform (DataFrame monster_info)" using k by (rule uniform_DataFrame)
  from clean_up_Inr [OF c] u0 obtain pre where
    s: "sort_values ?four pre = Inr df" and u: "uniform pre"
    by blast
  have udf: "uniform df" using sort_values_Inr(4) [OF s] u by blast
  have cols: "set ?four \<subseteq> set (columns df)"
    using sort_values_Inr(1) [OF s] sort_values_Inr(2) [OF s] by simp
  have cells: "\<exists>s. map_of row c = Some s" if "row \<in> set (rows df)" "c \<in> set ?four" for row c
    using uniform_cell [OF udf _ that(1)] cols that(2) by blast
  have key: "?key row = [(0, the (map_of row ''Lawfulness'')), (0, the (map_of row ''Goodness'')),
                         (0, the (map_of row ''Race'')), (0, the (map_of row ''Name''))]"
    if row: "row \<in> set (rows df)" for row
  proof -
    obtain l g r n where "map_of row ''Lawfulness'' = Some l" "map_of row ''Goodness'' = Some g"
      "map_of row ''Race'' = Some r" "map_of row ''Name'' = Some n"
      using cells [OF row, of "''Lawfulness''"] cells [OF row, of "''Goodness''"]
        cells [OF row, of "''Race''"] cells [OF row, of "''Name''"]
      by auto
    then show ?thesis by (simp add: sort_cell_def)
  qed
  have "sorted (map ?key (rows df))"
    unfolding sort_values_Inr(3) [OF s] by (rule sorted_sort_key)
  then have "sorted_wrt (\<lambda>x y. ?key x \<le> ?key y) (rows df)"
    by (simp add: sorted_map)
  then have "sorted_wrt (\<lambda>x y. ?tuple x \<le> ?tuple y) (rows df)"
  proof (rule sorted_wrt_mono_rel [rotated])
    fix x y assume "x \<in> set (rows df)" "y \<in> set (rows df)" "?key x \<le> ?key y"
    then show "?tuple x \<le> ?tuple y"
      by (simp only: key four_keys_le)
  qed
  then have "sorted (map ?tuple (rows df))" by (simp add: sorted_map)
  with cells show ?thesis by blast
qed

theorem output_table_sorted_witness:
  "get_monsters_in_quest SequenceMatcher_ratio
     \<lparr>get_quest_urls = Inr [(''The Shroud'', ''u1''), (''Tide Turns'', ''u2'')],
      get_monster_urls = (\<lambda>url. Inr [(''Orc'', ''m1''), (''Elf'', ''m2'')]),
      content_text = (\<lambda>url. if url = ''m1''
                             then Inr (''Race: Orc'' @ [CHR 0x0A] @ ''Alignment: Lawful Evil'')
                             else Inr (''Alignment: Chaotic Good'' @ [CHR 0x0A] @ ''Race: Elf''))\<rparr>
     [''Alignment'', ''Race''] ''tide turns''
   = Inr \<lparr>columns = [''Name'', ''Race'', ''Lawfulness'', ''Goodness''],
          rows = [[(''Name'', ''Elf''), (''Race'', ''Elf''),
                   (''Lawfulness'', ''Chaotic''), (''Goodness'', ''Good'')],
                  [(''Name'', ''Orc''), (''Race'', ''Orc''),
                   (''Lawfulness'', ''Lawful''), (''Goodness'', ''Evil'')]]\<rparr>
   \<and> sorted [(''Chaotic'', ''Good'', ''Elf'', ''Elf''), (''Lawful'', ''Evil'', ''Orc'', ''Orc'')]"
proof -
  have run: "get_monsters_in_quest SequenceMatcher_ratio
     \<lparr>get_quest_urls = Inr [(''The Shroud'', ''u1''), (''Tide Turns'', ''u2'')],
      get_monster_urls = (\<lambda>url. Inr [(''Orc'', ''m1''), (''Elf'', ''m2'')]),
      content_text = (\<lambda>url. if url = ''m1''
                             then Inr (''Race: Orc'' @ [CHR 0x0A] @ ''Alignment: Lawful Evil'')
                             else Inr (''Alignment: Chaotic Good'' @ [CHR 0x0A] @ ''Race: Elf''))\<rparr>
     [''Alignment'', ''Race''] ''tide turns''
   = Inr \<lparr>columns = [''Name'', ''Race'', ''Lawfulness'', ''Goodness''],
          rows = [[(''Name'', ''Elf''), (''Race'', ''Elf''),
                   (''Lawfulness'', ''Chaotic''), (''Goodness'', ''Good'')],
                  [(''Name'', ''Orc''), (''Race'', ''Orc''),
                   (''Lawfulness'', ''Lawful''), (''Goodness'', ''Evil'')]]\<rparr>"
    by code_simp
  from output_table_sorted [OF run] show ?thesis unfolding run by simp
qed

text \<open>
  Claim C6 says that a schema without \<open>Alignment\<close>, or without \<open>Race\<close>, gives a table
  that lacks the columns concerned. The code guards the derivation of the two alignment
  columns by \<^verbatim>\<open>if "Alignment" in df.columns\<close>, and then sorts by \<open>Lawfulness\<close>,
  \<open>Goodness\<close>, \<open>Race\<close> and \<open>Name\<close> without any guard. So, whatever the wiki returns and
  whatever the query: when the keywords contain neither \<open>Alignment\<close> nor \<open>Lawfulness\<close>,
  or do not contain \<open>Race\<close>, \<^verbatim>\<open>get_monsters_in_quest\<close> raises and returns no table.
\<close>

theorem schema_without_alignment_or_race_raises:
  assumes "(''Alignment'' \<notin> set keywords \<and> ''Lawfulness'' \<notin> set keywords)
           \<or> ''Race'' \<notin> set keywords"
  shows "\<exists>err. get_monsters_in_quest ratio e keywords quest_name = Inl err"
proof (cases "get_monsters_in_quest ratio e keywords quest_name")
  case (Inl err)
  then show ?thesis by blast
next
  case (Inr df)
  from get_monsters_in_quest_Inr [OF Inr] obtain monster_info where
    c: "clean_up monster_info = Inr df" and
    k: "\<forall>row\<in>set monster_info. fst ` set row = insert ''Name'' (set keywords)"
    by blast
  have cols: "set (columns (DataFrame monster_info)) \<subseteq> insert ''Name'' (set keywords)"
    using k by (auto simp: columns_DataFrame)
  from assms have "\<exists>err. clean_up monster_info = Inl err"
  proof
    assume a: "''Alignment'' \<notin> set keywords \<and> ''Lawfulness'' \<notin> set keywords"
    have "''Alignment'' \<notin> set (columns (DataFrame monster_info))"
      and "''Lawfulness'' \<notin> set (columns (DataFrame monster_info))"
      using a cols by auto
    then show ?thesis by (simp add: clean_up_no_alignment)
  next
    assume r: "''Race'' \<notin> set keywords"
    have "''Race'' \<notin> set (columns (DataFrame monster_info))"
      using r cols by auto
    then show ?thesis
      by (intro clean_up_missing_column [of "''Race''"]) simp_all
  qed
  with c show ?thesis by simp
qed

theorem schema_without_alignment_or_race_raises_witness:
  "((''Alignment'' \<notin> set [''Race'', ''Type''] \<and> ''Lawfulness'' \<notin> set [''Race'', ''Type''])
    \<or> ''Race'' \<notin> set [''Race'', ''Type''])
   \<and> get_monsters_in_quest SequenceMatcher_ratio
        \<lparr>get_quest_urls = Inr [(''Tide Turns'', ''u'')],
         get_monster_urls = (\<lambda>url. Inr [(''Orc'', ''m'')]),
         content_text = (\<lambda>url. Inr (''Race: Orc'' @ [CHR 0x0A] @ ''Type: Humanoid''))\<rparr>
        [''Race'', ''Type''] ''tide turns''
      = Inl (KeyError ''Lawfulness'')
   \<and> get_monsters_in_quest SequenceMatcher_ratio
        \<lparr>get_quest_urls = Inr [(''Tide Turns'', ''u'')],
         get_monster_urls = (\<lambda>url. Inr [(''Orc'', ''m'')]),
         content_text = (\<lambda>url. Inr (''Alignment: Lawful Evil'' @ [CHR 0x0A] @ ''Type: Humanoid''))\<rparr>
        [''Alignment'', ''Type''] ''tide turns''
      = Inl (KeyError ''Race'')"
proof -
  have h: "(''Alignment'' \<notin> set [''Race'', ''Type''] \<and> ''Lawfulness'' \<notin> set [''Race'', ''Type''])
    \<or> ''Race'' \<notin> set [''Race'', ''Type'']"
    by simp
  have a: "get_monsters_in_quest SequenceMatcher_ratio
        \<lparr>get_quest_urls = Inr [(''Tide Turns'', ''u'')],
         get_monster_urls = (\<lambda>url. Inr [(''Orc'', ''m'')]),
         content_text = (\<lambda>url. Inr (''Race: Orc'' @ [CHR 0x0A] @ ''Type: Humanoid''))\<rparr>
        [''Race'', ''Type''] ''tide turns''
      = Inl (KeyError ''Lawfulness'')"
    by code_simp
  have b: "get_monsters_in_quest SequenceMatcher_ratio
        \<lparr>get_quest_urls = Inr [(''Tide Turns'', ''u'')],
         get_monster_urls = (\<lambda>url. Inr [(''Orc'', ''m'')]),
         content_text = (\<lambda>url. Inr (''Alignment: Lawful Evil'' @ [CHR 0x0A] @ ''Type: Humanoid''))\<rparr>
        [''Alignment'', ''Type''] ''tide turns''
      = Inl (KeyError ''Race'')"
    by code_simp
  from schema_without_alignment_or_race_raises [OF h, of SequenceMatcher_ratio
      "\<lparr>get_quest_urls = Inr [(''Tide Turns'', ''u'')],
         get_monster_urls = (\<lambda>url. Inr [(''Orc'', ''m'')]),
         content_text = (\<lambda>url. Inr (''Race: Orc'' @ [CHR 0x0A] @ ''Type: Humanoid''))\<rparr>"
      "''tide turns''"]
  show ?thesis using h a b by blast
qed

end
